theory Spec2Isabelle
  imports Complex_Main "HOL-Library.AList" "HOL-Library.Multiset"
begin

section \<open>Alert lifecycle manager (core/alerts.js)\<close>

text \<open>
  The class \<^verbatim>\<open>AlertSystem\<close> keeps its live alerts in a JavaScript \<^verbatim>\<open>Map\<close> from alert id
  to alert object, its resolved alerts in the array \<^verbatim>\<open>history\<close>, and one timer handle per
  alert in the \<^verbatim>\<open>Map\<close> \<^verbatim>\<open>escalationTimers\<close>. A \<^verbatim>\<open>Map\<close> enumerates its entries in
  insertion order and \<^verbatim>\<open>set\<close> on a present key keeps the entry's place, which is what
  \<open>AList.update\<close> does on an association list. Identifiers (\<^verbatim>\<open>uuidv4()\<close>) and clock
  readings (\<^verbatim>\<open>new Date()\<close>) come from outside the class: every operation takes them as
  arguments. A time stamp is the number of milliseconds that \<^verbatim>\<open>new Date(iso)\<close> gives
  back for the ISO string the code stores; one clock reading is used for all the stamps
  one call writes.
\<close>

record priority_info =
  level :: int
  timeout :: "nat option"

text \<open>\<^verbatim>\<open>this.priorities\<close>, in the order of the constructor (colour and sound left out).\<close>

definition priorities :: "(string \<times> priority_info) list" where
  "priorities =
    [(''critical'', \<lparr>level = 5, timeout = None\<rparr>),
     (''high'', \<lparr>level = 4, timeout = Some 300000\<rparr>),
     (''medium'', \<lparr>level = 3, timeout = Some 900000\<rparr>),
     (''low'', \<lparr>level = 2, timeout = Some 3600000\<rparr>),
     (''info'', \<lparr>level = 1, timeout = None\<rparr>)]"

text \<open>\<^verbatim>\<open>this.priorities[priority]?.level || 3\<close>\<close>

definition level_or_3 :: "string \<Rightarrow> int" where
  "level_or_3 p = (case map_of priorities p of
      None \<Rightarrow> 3
    | Some i \<Rightarrow> (if level i = 0 then 3 else level i))"

text \<open>\<^verbatim>\<open>this.priorities[priority]?.timeout\<close>; \<open>None\<close> stands for a falsy value.\<close>

definition timeout_of :: "string \<Rightarrow> nat option" where
  "timeout_of p = (case map_of priorities p of
      None \<Rightarrow> None
    | Some i \<Rightarrow> (case timeout i of None \<Rightarrow> None | Some t \<Rightarrow> (if t = 0 then None else Some t)))"

record alert_note =
  note_type :: string
  note_user :: string
  note_text :: string
  note_timestamp :: nat

record alert =
  alert_id :: string
  priority :: string
  priorityLevel :: int
  category :: string
  title :: string
  message :: string
  source :: string
  payload :: string
  requiresAck :: bool
  acknowledged :: bool
  acknowledgedBy :: "string option"
  acknowledgedAt :: "nat option"
  resolved :: bool
  resolvedBy :: "string option"
  resolvedAt :: "nat option"
  assignedTo :: "string option"
  createdAt :: nat
  updatedAt :: nat
  escalationLevel :: nat
  alert_notes :: "alert_note list"

text \<open>
  A timer made by \<^verbatim>\<open>setTimeout\<close>: the alert id its callback closes over and the instant
  it is due. The runtime's table of timers that are still to fire is \<open>timeouts\<close>, indexed
  by handle; \<^verbatim>\<open>clearTimeout\<close> and firing remove the handle from it.
\<close>

record timer =
  timer_alert :: string
  timer_due :: nat

record alert_system =
  alerts :: "(string \<times> alert) list"
  history :: "alert list"
  escalationTimers :: "string \<rightharpoonup> nat"
  timeouts :: "nat \<rightharpoonup> timer"
  nextTimer :: nat
  emitted :: "(string \<times> alert) list"

definition maxHistory :: nat where
  "maxHistory = 1000"

definition new_AlertSystem :: alert_system where
  "new_AlertSystem =
    \<lparr>alerts = [], history = [], escalationTimers = Map.empty, timeouts = Map.empty,
     nextTimer = 0, emitted = []\<rparr>"

definition emit :: "string \<Rightarrow> alert \<Rightarrow> alert_system \<Rightarrow> alert_system" where
  "emit name a s = s\<lparr>emitted := emitted s @ [(name, a)]\<rparr>"

definition clearEscalation :: "string \<Rightarrow> alert_system \<Rightarrow> alert_system" where
  "clearEscalation alertId s = (case escalationTimers s alertId of
      None \<Rightarrow> s
    | Some t \<Rightarrow> s\<lparr>timeouts := (timeouts s)(t := None),
                  escalationTimers := (escalationTimers s)(alertId := None)\<rparr>)"

definition setupEscalation :: "alert \<Rightarrow> nat \<Rightarrow> alert_system \<Rightarrow> alert_system" where
  "setupEscalation a now s0 =
    (let s = clearEscalation (alert_id a) s0 in
     case timeout_of (priority a) of
       None \<Rightarrow> s
     | Some t \<Rightarrow>
         if \<not> acknowledged a
         then s\<lparr>timeouts := (timeouts s)(nextTimer s \<mapsto> \<lparr>timer_alert = alert_id a, timer_due = now + t\<rparr>),
                escalationTimers := (escalationTimers s)(alert_id a \<mapsto> nextTimer s),
                nextTimer := Suc (nextTimer s)\<rparr>
         else s)"

text \<open>The argument of \<^verbatim>\<open>create\<close>; \<open>None\<close> is a property the caller left out.\<close>

record create_options =
  opt_priority :: "string option"
  opt_category :: "string option"
  opt_title :: string
  opt_message :: string
  opt_source :: "string option"
  opt_data :: "string option"
  opt_requiresAck :: "bool option"
  opt_autoEscalate :: "bool option"
  opt_assignedTo :: "string option"

definition or_default :: "'a \<Rightarrow> 'a option \<Rightarrow> 'a" where
  "or_default d x = (case x of None \<Rightarrow> d | Some v \<Rightarrow> v)"

definition create :: "create_options \<Rightarrow> string \<Rightarrow> nat \<Rightarrow> alert_system \<Rightarrow> alert \<times> alert_system" where
  "create options uuid now s =
    (let p = or_default ''medium'' (opt_priority options);
         a = \<lparr>alert_id = uuid,
              priority = p,
              priorityLevel = level_or_3 p,
              category = or_default ''operational'' (opt_category options),
              title = opt_title options,
              message = opt_message options,
              source = or_default ''system'' (opt_source options),
              payload = or_default [] (opt_data options),
              requiresAck = or_default False (opt_requiresAck options),
              acknowledged = False,
              acknowledgedBy = None,
              acknowledgedAt = None,
              resolved = False,
              resolvedBy = None,
              resolvedAt = None,
              assignedTo = opt_assignedTo options,
              createdAt = now,
              updatedAt = now,
              escalationLevel = 0,
              alert_notes = []\<rparr>;
         s1 = s\<lparr>alerts := AList.update uuid a (alerts s)\<rparr>;
         s2 = (if or_default True (opt_autoEscalate options) \<and> timeout_of p \<noteq> None
               then setupEscalation a now s1 else s1)
     in (a, emit ''alert'' a (emit ''alert:created'' a s2)))"

text \<open>\<^verbatim>\<open>if (note)\<close>: a string that is present and not empty.\<close>

definition truthy :: "string option \<Rightarrow> bool" where
  "truthy x = (case x of None \<Rightarrow> False | Some v \<Rightarrow> v \<noteq> [])"

definition add_note :: "string \<Rightarrow> string \<Rightarrow> string \<Rightarrow> nat \<Rightarrow> alert \<Rightarrow> alert" where
  "add_note ty user txt now a =
    a\<lparr>alert_notes := alert_notes a @ [\<lparr>note_type = ty, note_user = user, note_text = txt, note_timestamp = now\<rparr>]\<rparr>"

definition acknowledge ::
  "string \<Rightarrow> string \<Rightarrow> string option \<Rightarrow> nat \<Rightarrow> alert_system \<Rightarrow> alert option \<times> alert_system" where
  "acknowledge alertId userId nt now s = (case map_of (alerts s) alertId of
      None \<Rightarrow> (None, s)
    | Some a0 \<Rightarrow>
        (let a1 = a0\<lparr>acknowledged := True, acknowledgedBy := Some userId,
                     acknowledgedAt := Some now, updatedAt := now\<rparr>;
             a = (if truthy nt then add_note ''acknowledgment'' userId (or_default [] nt) now a1 else a1);
             s1 = s\<lparr>alerts := AList.update alertId a (alerts s)\<rparr>;
             s2 = clearEscalation alertId s1
         in (Some a, emit ''alert:acknowledged'' a s2)))"

definition addToHistory :: "alert \<Rightarrow> alert_system \<Rightarrow> alert_system" where
  "addToHistory a s =
    (let h = a # history s
     in s\<lparr>history := (if length h > maxHistory then take maxHistory h else h)\<rparr>)"

definition resolve ::
  "string \<Rightarrow> string \<Rightarrow> string option \<Rightarrow> nat \<Rightarrow> alert_system \<Rightarrow> alert option \<times> alert_system" where
  "resolve alertId userId resolution now s = (case map_of (alerts s) alertId of
      None \<Rightarrow> (None, s)
    | Some a0 \<Rightarrow>
        (let a1 = a0\<lparr>resolved := True, resolvedBy := Some userId,
                     resolvedAt := Some now, updatedAt := now\<rparr>;
             a = (if truthy resolution then add_note ''resolution'' userId (or_default [] resolution) now a1 else a1);
             s1 = s\<lparr>alerts := AList.update alertId a (alerts s)\<rparr>;
             s2 = clearEscalation alertId s1;
             s3 = addToHistory a s2;
             s4 = s3\<lparr>alerts := AList.delete alertId (alerts s3)\<rparr>
         in (Some a, emit ''alert:resolved'' a s4)))"

text \<open>The local array of \<^verbatim>\<open>escalate\<close> and \<^verbatim>\<open>Array.prototype.indexOf\<close> (\<open>-1\<close> when absent).\<close>

definition escalation_order :: "string list" where
  "escalation_order = [''info'', ''low'', ''medium'', ''high'', ''critical'']"

fun indexOf :: "'a list \<Rightarrow> 'a \<Rightarrow> int" where
  "indexOf [] x = -1"
| "indexOf (y # ys) x = (if y = x then 0 else (let i = indexOf ys x in if i < 0 then -1 else i + 1))"

definition default_reason :: string where
  "default_reason = ''Auto-escalation due to timeout''"

definition escalate ::
  "string \<Rightarrow> string option \<Rightarrow> nat \<Rightarrow> alert_system \<Rightarrow> alert option \<times> alert_system" where
  "escalate alertId reason now s = (case map_of (alerts s) alertId of
      None \<Rightarrow> (None, s)
    | Some a0 \<Rightarrow>
        (let currentIndex = indexOf escalation_order (priority a0) in
         if currentIndex < int (length escalation_order) - 1
         then
           (let newPriority = escalation_order ! nat (currentIndex + 1);
                a1 = a0\<lparr>priority := newPriority,
                        priorityLevel := level (the (map_of priorities newPriority)),
                        escalationLevel := escalationLevel a0 + 1,
                        updatedAt := now\<rparr>;
                a = add_note ''escalation'' ''system'' (or_default default_reason reason) now a1;
                s1 = s\<lparr>alerts := AList.update alertId a (alerts s)\<rparr>;
                s2 = (if timeout_of newPriority \<noteq> None then setupEscalation a now s1 else s1)
            in (Some a, emit ''alert'' a (emit ''alert:escalated'' a s2)))
         else (Some a0, s)))"

definition addNote ::
  "string \<Rightarrow> string \<Rightarrow> string \<Rightarrow> nat \<Rightarrow> alert_system \<Rightarrow> alert option \<times> alert_system" where
  "addNote alertId userId txt now s = (case map_of (alerts s) alertId of
      None \<Rightarrow> (None, s)
    | Some a0 \<Rightarrow>
        (let a = (add_note ''note'' userId txt now a0)\<lparr>updatedAt := now\<rparr>;
             s1 = s\<lparr>alerts := AList.update alertId a (alerts s)\<rparr>
         in (Some a, emit ''alert:updated'' a s1)))"

definition assign ::
  "string \<Rightarrow> string \<Rightarrow> nat \<Rightarrow> alert_system \<Rightarrow> alert option \<times> alert_system" where
  "assign alertId assignee now s = (case map_of (alerts s) alertId of
      None \<Rightarrow> (None, s)
    | Some a0 \<Rightarrow>
        (let a = add_note ''assignment'' ''system'' (''Assigned to '' @ assignee) now
                   (a0\<lparr>assignedTo := Some assignee, updatedAt := now\<rparr>);
             s1 = s\<lparr>alerts := AList.update alertId a (alerts s)\<rparr>
         in (Some a, emit ''alert:assigned'' a s1)))"

text \<open>
  The callback of the escalation timer with handle \<open>h\<close>, run by the event loop at instant
  \<open>now\<close>: it runs only if the timer is still in the runtime's table and due, and a timer
  fires once.
\<close>

definition timer_fires :: "nat \<Rightarrow> nat \<Rightarrow> alert_system \<Rightarrow> bool" where
  "timer_fires h now s = (case timeouts s h of None \<Rightarrow> False | Some t \<Rightarrow> timer_due t \<le> now)"

definition fire :: "nat \<Rightarrow> nat \<Rightarrow> alert_system \<Rightarrow> alert_system" where
  "fire h now s = (case timeouts s h of
      None \<Rightarrow> s
    | Some t \<Rightarrow>
        if timer_due t \<le> now
        then snd (escalate (timer_alert t) None now (s\<lparr>timeouts := (timeouts s)(h := None)\<rparr>))
        else s)"


subsection \<open>Queries\<close>

text \<open>The argument of \<^verbatim>\<open>getActive\<close>; a filter that is absent or empty is not applied.\<close>

record active_filters =
  filter_priority :: "string option"
  filter_category :: "string option"
  filter_unacknowledged :: bool

definition no_filters :: active_filters where
  "no_filters = \<lparr>filter_priority = None, filter_category = None, filter_unacknowledged = False\<rparr>"

text \<open>The comparison function \<^verbatim>\<open>getActive\<close> hands to \<^verbatim>\<open>Array.prototype.sort\<close>.\<close>

definition compareFn :: "alert \<Rightarrow> alert \<Rightarrow> int" where
  "compareFn a b =
    (if priorityLevel b \<noteq> priorityLevel a
     then priorityLevel b - priorityLevel a
     else int (createdAt b) - int (createdAt a))"

text \<open>
  \<^verbatim>\<open>Array.prototype.sort\<close> is a stable sort: with a consistent comparison function its
  result is the one sorted arrangement that keeps elements comparing equal in their
  former order. Insertion from the right, in front of the first element that does not
  come before the new one, computes that arrangement.
\<close>

fun insort_by :: "('a \<Rightarrow> 'a \<Rightarrow> int) \<Rightarrow> 'a \<Rightarrow> 'a list \<Rightarrow> 'a list" where
  "insort_by cmp x [] = [x]"
| "insort_by cmp x (y # ys) = (if cmp x y \<le> 0 then x # y # ys else y # insort_by cmp x ys)"

definition sort_by :: "('a \<Rightarrow> 'a \<Rightarrow> int) \<Rightarrow> 'a list \<Rightarrow> 'a list" where
  "sort_by cmp xs = foldr (insort_by cmp) xs []"

definition getActive :: "active_filters \<Rightarrow> alert_system \<Rightarrow> alert list" where
  "getActive filters s =
    (let a0 = filter (\<lambda>a. \<not> resolved a) (map snd (alerts s));
         a1 = (if truthy (filter_priority filters)
               then filter (\<lambda>a. Some (priority a) = filter_priority filters) a0 else a0);
         a2 = (if truthy (filter_category filters)
               then filter (\<lambda>a. Some (category a) = filter_category filters) a1 else a1);
         a3 = (if filter_unacknowledged filters
               then filter (\<lambda>a. \<not> acknowledged a) a2 else a2)
     in sort_by compareFn a3)"

text \<open>What the filters of \<^verbatim>\<open>getActive\<close> let through, and the order it promises.\<close>

definition passes :: "active_filters \<Rightarrow> alert \<Rightarrow> bool" where
  "passes filters a \<longleftrightarrow>
    (truthy (filter_priority filters) \<longrightarrow> Some (priority a) = filter_priority filters) \<and>
    (truthy (filter_category filters) \<longrightarrow> Some (category a) = filter_category filters) \<and>
    (filter_unacknowledged filters \<longrightarrow> \<not> acknowledged a)"

definition attention_order :: "alert \<Rightarrow> alert \<Rightarrow> bool" where
  "attention_order a b \<longleftrightarrow>
    priorityLevel a > priorityLevel b \<or>
    (priorityLevel a = priorityLevel b \<and> createdAt a \<ge> createdAt b)"

subsection \<open>Runs of the alert system\<close>

text \<open>
  One event is one call of the public interface, with the identifier or the clock
  reading it draws, or the event loop running the callback of a timer.
\<close>

datatype event =
    Create create_options string nat
  | Acknowledge string string "string option" nat
  | Resolve string string "string option" nat
  | Escalate string "string option" nat
  | AddNote string string string nat
  | Assign string string nat
  | TimerFires nat nat

fun exec :: "event \<Rightarrow> alert_system \<Rightarrow> alert_system" where
  "exec (Create options uuid now) s = snd (create options uuid now s)"
| "exec (Acknowledge i u nt now) s = snd (acknowledge i u nt now s)"
| "exec (Resolve i u res now) s = snd (resolve i u res now s)"
| "exec (Escalate i reason now) s = snd (escalate i reason now s)"
| "exec (AddNote i u txt now) s = snd (addNote i u txt now s)"
| "exec (Assign i assignee now) s = snd (assign i assignee now s)"
| "exec (TimerFires h now) s = fire h now s"

fun run :: "event list \<Rightarrow> alert_system \<Rightarrow> alert_system" where
  "run [] s = s"
| "run (e # es) s = run es (exec e s)"

text \<open>The identifiers \<^verbatim>\<open>uuidv4()\<close> returned during a run; it never returns one twice.\<close>

fun created_ids :: "event list \<Rightarrow> string list" where
  "created_ids [] = []"
| "created_ids (Create options uuid now # es) = uuid # created_ids es"
| "created_ids (e # es) = created_ids es"

text \<open>The alerts whose escalation timer fired during a run, in the order of firing.\<close>

fun auto_escalations :: "event list \<Rightarrow> alert_system \<Rightarrow> string list" where
  "auto_escalations [] s = []"
| "auto_escalations (TimerFires h now # es) s =
    (case timeouts s h of
       None \<Rightarrow> []
     | Some t \<Rightarrow> (if timer_due t \<le> now then [timer_alert t] else []))
    @ auto_escalations es (fire h now s)"
| "auto_escalations (e # es) s = auto_escalations es (exec e s)"

text \<open>
  The alerts that calls of \<^verbatim>\<open>resolve\<close> returned during a run, the one resolved
  last first.
\<close>

fun resolutions :: "event list \<Rightarrow> alert_system \<Rightarrow> string list" where
  "resolutions [] s = []"
| "resolutions (Resolve i u res now # es) s =
    resolutions es (snd (resolve i u res now s)) @
    (case fst (resolve i u res now s) of None \<Rightarrow> [] | Some a \<Rightarrow> [alert_id a])"
| "resolutions (e # es) s = resolutions es (exec e s)"

definition live_ids :: "alert_system \<Rightarrow> string set" where
  "live_ids s = fst ` set (alerts s)"

definition history_ids :: "alert_system \<Rightarrow> string set" where
  "history_ids s = alert_id ` set (history s)"

text \<open>
  What every state that the operations build keeps true: the live map is keyed by the
  alerts' own ids, holds no resolved alert, and stores with each alert the rank of its
  priority; the history holds resolved alerts only, at most \<open>maxHistory\<close> of them; a
  timer that is still to fire is the one registered for its alert, and that alert is
  live and not acknowledged.
\<close>

definition live_ok :: "alert_system \<Rightarrow> bool" where
  "live_ok s \<longleftrightarrow>
    distinct (map fst (alerts s)) \<and>
    (\<forall>k a. map_of (alerts s) k = Some a \<longrightarrow>
       alert_id a = k \<and> \<not> resolved a \<and> priorityLevel a = level_or_3 (priority a))"

definition history_ok :: "alert_system \<Rightarrow> bool" where
  "history_ok s \<longleftrightarrow> (\<forall>a \<in> set (history s). resolved a) \<and> length (history s) \<le> maxHistory"

definition timers_registered :: "alert_system \<Rightarrow> bool" where
  "timers_registered s \<longleftrightarrow>
    (\<forall>h t. timeouts s h = Some t \<longrightarrow>
       h < nextTimer s \<and> escalationTimers s (timer_alert t) = Some h)"

definition timers_unacknowledged :: "alert_system \<Rightarrow> bool" where
  "timers_unacknowledged s \<longleftrightarrow>
    (\<forall>h t. timeouts s h = Some t \<longrightarrow>
       (\<exists>a. map_of (alerts s) (timer_alert t) = Some a \<and> \<not> acknowledged a))"

definition timers_ok :: "alert_system \<Rightarrow> bool" where
  "timers_ok s \<longleftrightarrow> timers_registered s \<and> timers_unacknowledged s"

text \<open>
  How the operations may change a live alert: identity, creation time and the resolved
  flag stay, an acknowledgement is never taken back, the escalation level does not
  fall, and for an alert whose priority is in \<^verbatim>\<open>escalate\<close>'s array the rank of the
  priority grows by exactly as much as the escalation level.
\<close>

definition evolves :: "alert \<Rightarrow> alert \<Rightarrow> bool" where
  "evolves a a' \<longleftrightarrow>
    alert_id a' = alert_id a \<and> createdAt a' = createdAt a \<and> resolved a' = resolved a \<and>
    (acknowledged a \<longrightarrow> acknowledged a') \<and>
    escalationLevel a \<le> escalationLevel a' \<and>
    (priorityLevel a = level_or_3 (priority a) \<longrightarrow> priorityLevel a' = level_or_3 (priority a')) \<and>
    (priority a \<in> set escalation_order \<longrightarrow>
       priority a' \<in> set escalation_order \<and>
       level_or_3 (priority a') - level_or_3 (priority a)
         = int (escalationLevel a') - int (escalationLevel a))"

text \<open>
  The live map after some calls, against the live map before them: an entry is either
  one that a \<^verbatim>\<open>create\<close> with an identifier in \<open>C\<close> has made, or a former entry that
  has evolved.
\<close>

definition alerts_step :: "string set \<Rightarrow> alert_system \<Rightarrow> alert_system \<Rightarrow> bool" where
  "alerts_step C s s' \<longleftrightarrow>
    (\<forall>j a'. map_of (alerts s') j = Some a' \<longrightarrow>
       j \<in> C \<or> (\<exists>a. map_of (alerts s) j = Some a \<and> evolves a a'))"

definition urgent_options :: create_options where
  "urgent_options =
    \<lparr>opt_priority = Some ''urgent'', opt_category = None, opt_title = ''Gate'',
     opt_message = ''Gate open'', opt_source = None, opt_data = None,
     opt_requiresAck = None, opt_autoEscalate = None, opt_assignedTo = None\<rparr>"

definition plain_options :: create_options where
  "plain_options =
    \<lparr>opt_priority = None, opt_category = None, opt_title = ''Patrol'',
     opt_message = ''Patrol overdue'', opt_source = None, opt_data = None,
     opt_requiresAck = None, opt_autoEscalate = None, opt_assignedTo = None\<rparr>"

text \<open>
  A run that creates and resolves \<open>k\<close> alerts one after the other, the \<open>n\<close>-th with
  the identifier \<open>churn_id n\<close>.
\<close>

definition churn_id :: "nat \<Rightarrow> string" where
  "churn_id n = replicate (Suc n) CHR ''a''"

fun churn :: "nat \<Rightarrow> event list" where
  "churn 0 = []"
| "churn (Suc k) =
    churn k @ [Create plain_options (churn_id k) k, Resolve (churn_id k) ''operator'' None k]"

section \<open>Standing order matcher (core/standing-orders.js)\<close>

subsection \<open>The string methods the matcher calls\<close>

text \<open>
  A JavaScript string is modelled as a list of characters; the model covers ASCII
  text. \<^verbatim>\<open>toLowerCase\<close> maps the letters A to Z to a to z and leaves every other
  character as it is;
  \<^verbatim>\<open>trim\<close> strips tab, line feed, vertical tab, form feed, carriage return and space
  from both ends.
\<close>

definition toLowerCase_char :: "char \<Rightarrow> char" where
  "toLowerCase_char c =
    (case map_of (zip ''ABCDEFGHIJKLMNOPQRSTUVWXYZ'' ''abcdefghijklmnopqrstuvwxyz'') c of
       None \<Rightarrow> c
     | Some l \<Rightarrow> l)"

definition toLowerCase :: "string \<Rightarrow> string" where
  "toLowerCase s = map toLowerCase_char s"

definition is_whitespace :: "char \<Rightarrow> bool" where
  "is_whitespace c \<longleftrightarrow> c \<in> set [CHR 0x09, CHR 0x0A, CHR 0x0B, CHR 0x0C, CHR 0x0D, CHR '' '']"

definition trim :: "string \<Rightarrow> string" where
  "trim s = rev (dropWhile is_whitespace (rev (dropWhile is_whitespace s)))"

fun startsWith :: "string \<Rightarrow> string \<Rightarrow> bool" where
  "startsWith s [] = True"
| "startsWith [] (c # t) = False"
| "startsWith (d # s) (c # t) = (d = c \<and> startsWith s t)"

text \<open>\<^verbatim>\<open>s.includes(t)\<close>: \<open>t\<close> occurs in \<open>s\<close> as a substring.\<close>

fun includesStr :: "string \<Rightarrow> string \<Rightarrow> bool" where
  "includesStr [] t = (t = [])"
| "includesStr (c # s) t = (startsWith (c # s) t \<or> includesStr s t)"

text \<open>\<^verbatim>\<open>xs.join(sep)\<close>\<close>

fun join :: "string \<Rightarrow> string list \<Rightarrow> string" where
  "join sep [] = []"
| "join sep [x] = x"
| "join sep (x # y # ys) = x @ sep @ join sep (y # ys)"

text \<open>
  \<^verbatim>\<open>s.split(sep)\<close>: the pieces of \<open>s\<close> between the occurrences of \<open>sep\<close>, found from the
  left without overlap. \<open>split_go\<close> walks through \<open>s\<close> with the piece read so far
  (reversed) and the number of characters of a separator still to skip. With the empty
  separator \<^verbatim>\<open>split\<close> gives the characters of \<open>s\<close>.
\<close>

fun split_go :: "string \<Rightarrow> nat \<Rightarrow> string \<Rightarrow> string \<Rightarrow> string list" where
  "split_go sep k acc [] = [rev acc]"
| "split_go sep (Suc k) acc (c # s) = split_go sep k acc s"
| "split_go sep 0 acc (c # s) =
    (if startsWith (c # s) sep
     then rev acc # split_go sep (length sep - 1) [] s
     else split_go sep 0 (c # acc) s)"

definition split :: "string \<Rightarrow> string \<Rightarrow> string list" where
  "split sep s = (if sep = [] then map (\<lambda>c. [c]) s else split_go sep 0 [] s)"

subsection \<open>Orders, responses and the matcher's state\<close>

text \<open>The errors that the calls modelled here and in the sensor registry throw.\<close>

datatype js_error = UnknownSensorType string | UnknownSensor string | TypeError

record escalation_policy =
  always_notify :: bool
  threshold :: "string option"
  escalation_priority :: "string option"

record standing_order =
  trigger :: "string option"
  authority_level :: int
  escalation :: "escalation_policy option"

record agent_response =
  agent :: string
  response :: string

text \<open>
  \<^verbatim>\<open>this.orders\<close> is the object that \<^verbatim>\<open>yaml.parse\<close> makes of the mapping
  \<^verbatim>\<open>standing_orders\<close> of the configuration file. \<open>orders\<close> lists its properties, order
  id and order, in the order of the file, in which the properties are created; the ids
  of an object are distinct. An entry that the file leaves empty is \<^verbatim>\<open>null\<close>, here
  \<open>None\<close>. The context of a trigger is an arbitrary value of type \<open>'c\<close>. \<open>fired\<close>
  records the \<^verbatim>\<open>trigger\<close> events emitted so far.
\<close>

record 'c log_entry =
  log_orderId :: string
  log_action :: string
  log_details :: 'c
  log_timestamp :: nat

record 'c standing_orders =
  orders :: "(string \<times> standing_order option) list"
  logs :: "'c log_entry list"
  fired :: "(string \<times> standing_order \<times> 'c) list"

text \<open>
  \<^verbatim>\<open>Object.entries\<close> enumerates the properties of an object with the keys that are
  array indices first, in ascending numeric order, and the other keys after them in
  the order of their creation. An array index is the decimal numeral, without leading
  zeros, of an integer from 0 to \<open>2\<^sup>3\<^sup>2 - 2\<close>.
\<close>

definition digit_value :: "char \<Rightarrow> nat option" where
  "digit_value c = map_of (zip ''0123456789'' [0, 1, 2, 3, 4, 5, 6, 7, 8, 9]) c"

definition numeric_value :: "string \<Rightarrow> nat" where
  "numeric_value k = foldl (\<lambda>n c. 10 * n + (case digit_value c of None \<Rightarrow> 0 | Some d \<Rightarrow> d)) 0 k"

definition isArrayIndex :: "string \<Rightarrow> bool" where
  "isArrayIndex k \<longleftrightarrow>
    k \<noteq> [] \<and> list_all (\<lambda>c. digit_value c \<noteq> None) k \<and> (k = ''0'' \<or> hd k \<noteq> CHR ''0'') \<and>
    numeric_value k < 2 ^ 32 - 1"

definition Object_entries :: "(string \<times> 'a) list \<Rightarrow> (string \<times> 'a) list" where
  "Object_entries obj =
    sort_key (\<lambda>(k, v). numeric_value k) (filter (\<lambda>(k, v). isArrayIndex k) obj) @
    filter (\<lambda>(k, v). \<not> isArrayIndex k) obj"

definition log_activity :: "string \<Rightarrow> string \<Rightarrow> 'c \<Rightarrow> nat \<Rightarrow> 'c standing_orders \<Rightarrow> 'c standing_orders" where
  "log_activity orderId action details now s =
    (let l = logs s @ [\<lparr>log_orderId = orderId, log_action = action, log_details = details,
                        log_timestamp = now\<rparr>]
     in s\<lparr>logs := (if length l > 1000 then drop (length l - 1000) l else l)\<rparr>)"

text \<open>
  The loop of \<^verbatim>\<open>checkTrigger\<close> over the entries. Reading \<^verbatim>\<open>order.trigger\<close> of an
  order that is \<^verbatim>\<open>null\<close> throws a \<^verbatim>\<open>TypeError\<close>.
\<close>

fun checkTrigger_loop ::
  "(string \<times> standing_order option) list \<Rightarrow> string \<Rightarrow> 'c \<Rightarrow> nat \<Rightarrow> 'c standing_orders
    \<Rightarrow> (js_error + bool) \<times> 'c standing_orders" where
  "checkTrigger_loop [] triggerName ctx now s = (Inr False, s)"
| "checkTrigger_loop ((orderId, None) # rest) triggerName ctx now s = (Inl TypeError, s)"
| "checkTrigger_loop ((orderId, Some ord) # rest) triggerName ctx now s =
    (if trigger ord = Some triggerName
     then (let s1 = log_activity orderId ''triggered'' ctx now s
           in (Inr True, s1\<lparr>fired := fired s1 @ [(orderId, ord, ctx)]\<rparr>))
     else checkTrigger_loop rest triggerName ctx now s)"

definition checkTrigger ::
  "string \<Rightarrow> 'c \<Rightarrow> nat \<Rightarrow> 'c standing_orders \<Rightarrow> (js_error + bool) \<times> 'c standing_orders" where
  "checkTrigger triggerName ctx now s =
    checkTrigger_loop (Object_entries (orders s)) triggerName ctx now s"

definition requiresEscalation :: "standing_order \<Rightarrow> agent_response list \<Rightarrow> bool" where
  "requiresEscalation ord responses = (case escalation ord of
      None \<Rightarrow> False
    | Some esc \<Rightarrow>
        if always_notify esc then True
        else if truthy (threshold esc)
        then (let responseText = toLowerCase (join '' '' (map response responses));
                  thresholdTerms = split '' OR '' (toLowerCase (or_default [] (threshold esc)))
              in list_ex (\<lambda>t. includesStr responseText (trim t)) thresholdTerms)
        else False)"

text \<open>An order that escalates on either of two words, and one response naming the first.\<close>

definition perimeter_order :: standing_order where
  "perimeter_order =
    \<lparr>trigger = Some ''perimeter_breach'', authority_level = 3,
     escalation = Some \<lparr>always_notify = False, threshold = Some ''hostile OR weapon'',
                        escalation_priority = None\<rparr>\<rparr>"

definition hostile_response :: "agent_response list" where
  "hostile_response = [\<lparr>agent = ''watch_officer'', response = ''Hostile contact at the gate''\<rparr>]"

definition lockdown_order :: standing_order where
  "lockdown_order = \<lparr>trigger = Some ''perimeter_breach'', authority_level = 4, escalation = None\<rparr>"

text \<open>A configuration with two orders on the same trigger and one on another.\<close>

definition two_orders :: "string standing_orders" where
  "two_orders =
    \<lparr>orders = [(''night_patrol'', Some \<lparr>trigger = Some ''time == 2200'', authority_level = 2, escalation = None\<rparr>),
               (''perimeter_response'', Some perimeter_order),
               (''perimeter_lockdown'', Some lockdown_order)],
     logs = [], fired = []\<rparr>"

text \<open>
  A configuration whose second order has a number for its id, and one whose only
  order is left empty.
\<close>

definition numbered_orders :: "string standing_orders" where
  "numbered_orders =
    \<lparr>orders = [(''gate_watch'', Some perimeter_order), (''7'', Some lockdown_order)],
     logs = [], fired = []\<rparr>"

definition draft_orders :: "string standing_orders" where
  "draft_orders = \<lparr>orders = [(''draft'', None)], logs = [], fired = []\<rparr>"

section \<open>Sensor registry and trigger detector (core/sensors.js)\<close>

text \<open>
  The class \<^verbatim>\<open>SensorSystem\<close> keeps the registered sensors, one buffer of data points
  per sensor, the geofences and the watchlists in \<^verbatim>\<open>Map\<close>s, modelled as maps. A reading
  is a free-form object; the model gives it the fields the detector looks at: a field
  that is compared with a number is absent, \<^verbatim>\<open>null\<close> or a number, a property tested for
  truthiness is a boolean. Numbers are reals: the model covers readings whose numbers
  are finite and sensors whose configuration is an object, and the arithmetic of the
  geofence evaluator is the exact one, which the code's double-precision arithmetic
  approximates. Time stamps are the ISO strings the code
  stores. Free-form metadata of a sensor is left out. \<open>sensor_events\<close> records the
  events emitted so far.
\<close>

record latlng =
  lat :: real
  lng :: real

datatype geofence = Circle latlng real | Polygon "latlng list" | OtherFence string

record sensor_config =
  geofence_ref :: "string option"
  speedLimit :: "real option"
  smokeThreshold :: "real option"
  gasThreshold :: "real option"
  tempMax :: "real option"
  tempMin :: "real option"

record sensor_stats =
  dataCount :: nat
  triggerCount :: nat
  errorCount :: nat

record detections =
  persons :: "string list option"
  vehicles :: "string list option"
  faces :: "string list option"

datatype number_field = Undefined | Null | Number real

record reading =
  timestamp :: "string option"
  zone :: "string option"
  motion :: bool
  detected :: "detections option"
  battery :: number_field
  position :: "latlng option"
  speed :: number_field
  sos :: bool
  triggered :: bool
  tamper :: bool
  smoke :: number_field
  gas :: number_field
  temperature :: number_field
  granted :: bool
  event_type :: "string option"
  unknown_source :: bool
  jamming :: bool

text \<open>
  The data point \<^verbatim>\<open>{...data, timestamp, sensorId, sensorType, sensorName, zone}\<close>:
  \<open>data_fields\<close> is the reading with its time stamp and zone overwritten.
\<close>

record dataPoint =
  data_fields :: reading
  sensorId :: string
  sensorType :: string
  sensorName :: string

record sensor =
  sensor_id :: string
  sensor_name :: string
  sensor_type :: string
  location :: "latlng option"
  sensor_zone :: "string option"
  config :: sensor_config
  status :: string
  lastSeen :: string
  lastData :: "dataPoint option"
  registeredAt :: string
  stats :: sensor_stats

datatype trigger_detail =
    NoDetail
  | Count nat
  | Level number_field
  | Matches "string list"
  | Speed number_field
  | Temp number_field
  | Zone "string option"

record sensor_trigger =
  trigger_name :: string
  trigger_data :: dataPoint
  detail :: trigger_detail

record trigger_event =
  triggered_by :: sensor_trigger
  event_sensorId :: string
  event_sensorName :: string
  event_sensorType :: string
  event_zone :: "string option"
  event_timestamp :: "string option"

datatype sensor_event =
    SensorRegistered sensor
  | SensorUnregistered sensor
  | SensorData dataPoint
  | SensorDataOfType string dataPoint
  | SensorTrigger trigger_event
  | SensorOffline sensor

record sensor_system =
  sensors :: "string \<rightharpoonup> sensor"
  dataBuffer :: "string \<rightharpoonup> dataPoint list"
  geofences :: "string \<rightharpoonup> geofence"
  watchlist_faces :: "string \<rightharpoonup> string"
  watchlist_plates :: "string \<rightharpoonup> string"
  watchlist_devices :: "string \<rightharpoonup> string"
  sensor_events :: "sensor_event list"

definition bufferSize :: nat where
  "bufferSize = 100"

definition new_SensorSystem :: sensor_system where
  "new_SensorSystem =
    \<lparr>sensors = Map.empty, dataBuffer = Map.empty, geofences = Map.empty,
     watchlist_faces = Map.empty, watchlist_plates = Map.empty, watchlist_devices = Map.empty,
     sensor_events = []\<rparr>"

text \<open>
  \<^verbatim>\<open>this.sensorTypes[type]\<close> is truthy for the eight keys of the table and for the
  property names every object inherits.
\<close>

definition sensorTypes :: "string list" where
  "sensorTypes = [''camera'', ''drone'', ''gps_tracker'', ''motion_sensor'', ''environmental'',
                  ''access_control'', ''radio'', ''generic'']"

definition inherited_properties :: "string list" where
  "inherited_properties = [''constructor'', ''hasOwnProperty'', ''isPrototypeOf'',
     ''propertyIsEnumerable'', ''toLocaleString'', ''toString'', ''valueOf'', ''__proto__'',
     ''__defineGetter__'', ''__defineSetter__'', ''__lookupGetter__'', ''__lookupSetter__'']"

record register_options =
  reg_id :: "string option"
  reg_name :: string
  reg_type :: string
  reg_location :: "latlng option"
  reg_zone :: "string option"
  reg_config :: sensor_config

definition register ::
  "register_options \<Rightarrow> string \<Rightarrow> string \<Rightarrow> sensor_system \<Rightarrow> (js_error + sensor) \<times> sensor_system" where
  "register options uuid now s =
    (let i = or_default uuid (reg_id options) in
     if reg_type options \<notin> set (sensorTypes @ inherited_properties)
     then (Inl (UnknownSensorType (reg_type options)), s)
     else
       (let sn = \<lparr>sensor_id = i, sensor_name = reg_name options, sensor_type = reg_type options,
                  location = reg_location options, sensor_zone = reg_zone options,
                  config = reg_config options, status = ''online'', lastSeen = now,
                  lastData = None, registeredAt = now,
                  stats = \<lparr>dataCount = 0, triggerCount = 0, errorCount = 0\<rparr>\<rparr>
        in (Inr sn, s\<lparr>sensors := (sensors s)(i \<mapsto> sn),
                      dataBuffer := (dataBuffer s)(i \<mapsto> []),
                      sensor_events := sensor_events s @ [SensorRegistered sn]\<rparr>)))"

definition addGeofence :: "string \<Rightarrow> geofence \<Rightarrow> sensor_system \<Rightarrow> sensor_system" where
  "addGeofence i g s = s\<lparr>geofences := (geofences s)(i \<mapsto> g)\<rparr>"

subsection \<open>Geofence evaluator\<close>

text \<open>\<^verbatim>\<open>Math.atan2\<close> on the reals.\<close>

definition atan2 :: "real \<Rightarrow> real \<Rightarrow> real" where
  "atan2 y x =
    (if x > 0 then arctan (y / x)
     else if x < 0 \<and> y \<ge> 0 then arctan (y / x) + pi
     else if x < 0 then arctan (y / x) - pi
     else if y > 0 then pi / 2
     else if y < 0 then - pi / 2
     else 0)"

definition haversineDistance :: "real \<Rightarrow> real \<Rightarrow> real \<Rightarrow> real \<Rightarrow> real" where
  "haversineDistance lat1 lon1 lat2 lon2 =
    (let R = 6371000;
         dLat = (lat2 - lat1) * pi / 180;
         dLon = (lon2 - lon1) * pi / 180;
         a = sin (dLat / 2) * sin (dLat / 2) +
             cos (lat1 * pi / 180) * cos (lat2 * pi / 180) * sin (dLon / 2) * sin (dLon / 2);
         c = 2 * atan2 (sqrt a) (sqrt (1 - a))
     in R * c)"

text \<open>The loop \<^verbatim>\<open>for (i = 0, j = n - 1; i < n; j = i++)\<close> over the vertices.\<close>

definition pointInPolygon :: "latlng \<Rightarrow> latlng list \<Rightarrow> bool" where
  "pointInPolygon point polygon =
    fold (\<lambda>i inside.
            (let j = (if i = 0 then length polygon - 1 else i - 1);
                 xi = lat (polygon ! i); yi = lng (polygon ! i);
                 xj = lat (polygon ! j); yj = lng (polygon ! j)
             in if ((yi > lng point) \<noteq> (yj > lng point)) \<and>
                   lat point < (xj - xi) * (lng point - yi) / (yj - yi) + xi
                then \<not> inside else inside))
         [0..<length polygon] False"

definition checkGeofenceBreach :: "latlng \<Rightarrow> string option \<Rightarrow> sensor_system \<Rightarrow> bool" where
  "checkGeofenceBreach pos geofenceId s =
    (if \<not> truthy geofenceId then False
     else case geofences s (or_default [] geofenceId) of
            None \<Rightarrow> False
          | Some (Circle center radius) \<Rightarrow>
              haversineDistance (lat pos) (lng pos) (lat center) (lng center) > radius
          | Some (Polygon points) \<Rightarrow> \<not> pointInPolygon pos points
          | Some (OtherFence ty) \<Rightarrow> False)"

subsection \<open>Trigger detection and ingestion\<close>

text \<open>
  \<^verbatim>\<open>x || d\<close> for a number \<open>x\<close> of the configuration that may be absent (or
  \<^verbatim>\<open>null\<close>): \<open>d\<close> when it is absent or zero.
\<close>

definition or_number :: "real option \<Rightarrow> real \<Rightarrow> real" where
  "or_number x d = (case x of None \<Rightarrow> d | Some v \<Rightarrow> (if v = 0 then d else v))"

text \<open>
  \<^verbatim>\<open>x < y\<close> and \<^verbatim>\<open>x > y\<close> for a field \<open>x\<close> of a reading and a number \<open>y\<close>: the
  comparison converts \<^verbatim>\<open>undefined\<close> to \<^verbatim>\<open>NaN\<close>, which compares false, and \<^verbatim>\<open>null\<close>
  to zero.
\<close>

definition lt_number :: "number_field \<Rightarrow> real \<Rightarrow> bool" where
  "lt_number x y = (case x of Undefined \<Rightarrow> False | Null \<Rightarrow> 0 < y | Number v \<Rightarrow> v < y)"

definition gt_number :: "number_field \<Rightarrow> real \<Rightarrow> bool" where
  "gt_number x y = (case x of Undefined \<Rightarrow> False | Null \<Rightarrow> 0 > y | Number v \<Rightarrow> v > y)"

text \<open>\<^verbatim>\<open>data.detections?.persons?.length\<close>, zero standing for an absent value.\<close>

definition count_of :: "detections option \<Rightarrow> (detections \<Rightarrow> string list option) \<Rightarrow> nat" where
  "count_of d f = (case d of None \<Rightarrow> 0 | Some ds \<Rightarrow> (case f ds of None \<Rightarrow> 0 | Some xs \<Rightarrow> length xs))"

definition face_matches :: "sensor_system \<Rightarrow> detections option \<Rightarrow> string list" where
  "face_matches s d = (case d of
      None \<Rightarrow> []
    | Some ds \<Rightarrow> (case faces ds of None \<Rightarrow> [] | Some fs \<Rightarrow> filter (\<lambda>f. watchlist_faces s f \<noteq> None) fs))"

definition push_if :: "bool \<Rightarrow> string \<Rightarrow> dataPoint \<Rightarrow> trigger_detail \<Rightarrow> sensor_trigger list" where
  "push_if c name dp d = (if c then [\<lparr>trigger_name = name, trigger_data = dp, detail = d\<rparr>] else [])"

text \<open>The \<^verbatim>\<open>switch\<close> of \<^verbatim>\<open>processTriggers\<close>: the triggers pushed, in the order of the pushes.\<close>

definition detectTriggers :: "sensor \<Rightarrow> dataPoint \<Rightarrow> sensor_system \<Rightarrow> sensor_trigger list" where
  "detectTriggers sn dp s =
    (let d = data_fields dp; cfg = config sn in
     if sensor_type sn = ''camera'' then
       push_if (motion d) ''motion_detected'' dp NoDetail @
       push_if (count_of (detected d) persons > 0) ''person_detected'' dp (Count (count_of (detected d) persons)) @
       push_if (count_of (detected d) vehicles > 0) ''vehicle_detected'' dp (Count (count_of (detected d) vehicles)) @
       push_if (face_matches s (detected d) \<noteq> []) ''face_match'' dp (Matches (face_matches s (detected d)))
     else if sensor_type sn = ''drone'' then
       push_if (lt_number (battery d) 20) ''low_battery'' dp (Level (battery d)) @
       push_if (case position d of None \<Rightarrow> False
                | Some pos \<Rightarrow> checkGeofenceBreach pos (geofence_ref cfg) s) ''geofence_breach'' dp NoDetail
     else if sensor_type sn = ''gps_tracker'' then
       push_if (lt_number (battery d) 15) ''battery_low'' dp (Level (battery d)) @
       push_if (gt_number (speed d) (or_number (speedLimit cfg) 150)) ''speed_alert'' dp (Speed (speed d)) @
       push_if (sos d) ''sos_activated'' dp NoDetail @
       push_if (case position d of None \<Rightarrow> False
                | Some pos \<Rightarrow> checkGeofenceBreach pos (geofence_ref cfg) s) ''geofence_breach'' dp NoDetail
     else if sensor_type sn = ''motion_sensor'' then
       push_if (triggered d) ''motion_detected'' dp (Zone (zone d)) @
       push_if (tamper d) ''tamper_alert'' dp NoDetail
     else if sensor_type sn = ''environmental'' then
       push_if (gt_number (smoke d) (or_number (smokeThreshold cfg) 50)) ''smoke_detected'' dp (Level (smoke d)) @
       push_if (gt_number (gas d) (or_number (gasThreshold cfg) 100)) ''gas_leak'' dp (Level (gas d)) @
       push_if (gt_number (temperature d) (or_number (tempMax cfg) 50) \<or>
                lt_number (temperature d) (or_number (tempMin cfg) 0)) ''temperature_alert'' dp (Temp (temperature d))
     else if sensor_type sn = ''access_control'' then
       push_if (\<not> granted d) ''access_denied'' dp NoDetail @
       push_if (event_type d = Some ''forced'') ''forced_entry'' dp NoDetail
     else if sensor_type sn = ''radio'' then
       push_if (unknown_source d) ''unknown_frequency'' dp NoDetail @
       push_if (jamming d) ''jamming_detected'' dp NoDetail
     else [])"

text \<open>
  One turn of the loop that emits the triggers. \<open>key\<close> is the key under which the
  sensor object is registered: \<^verbatim>\<open>sensor.stats.triggerCount++\<close> changes the object the
  \<^verbatim>\<open>Map\<close> holds.
\<close>

definition trigger_event_of :: "sensor \<Rightarrow> dataPoint \<Rightarrow> sensor_trigger \<Rightarrow> trigger_event" where
  "trigger_event_of sn dp t =
    \<lparr>triggered_by = t, event_sensorId = sensor_id sn, event_sensorName = sensor_name sn,
     event_sensorType = sensor_type sn, event_zone = sensor_zone sn,
     event_timestamp = timestamp (data_fields dp)\<rparr>"

definition emit_trigger :: "string \<Rightarrow> sensor \<Rightarrow> dataPoint \<Rightarrow> sensor_trigger \<Rightarrow> sensor_system \<Rightarrow> sensor_system" where
  "emit_trigger key sn dp t s =
    s\<lparr>sensors := (case sensors s key of
                    None \<Rightarrow> sensors s
                  | Some cur \<Rightarrow> (sensors s)(key \<mapsto>
                      cur\<lparr>stats := (stats cur)\<lparr>triggerCount := triggerCount (stats cur) + 1\<rparr>\<rparr>)),
       sensor_events := sensor_events s @ [SensorTrigger (trigger_event_of sn dp t)]\<rparr>"

definition processTriggers ::
  "string \<Rightarrow> sensor \<Rightarrow> dataPoint \<Rightarrow> sensor_system \<Rightarrow> sensor_trigger list \<times> sensor_system" where
  "processTriggers key sn dp s =
    (let triggers = detectTriggers sn dp s
     in (triggers, fold (emit_trigger key sn dp) triggers s))"

definition stamp :: "reading \<Rightarrow> string \<Rightarrow> string" where
  "stamp d now = (if truthy (timestamp d) then or_default [] (timestamp d) else now)"

definition dataPoint_of :: "sensor \<Rightarrow> string \<Rightarrow> reading \<Rightarrow> string \<Rightarrow> dataPoint" where
  "dataPoint_of sn sid d now =
    \<lparr>data_fields = d\<lparr>timestamp := Some (stamp d now), zone := sensor_zone sn\<rparr>,
     sensorId = sid, sensorType = sensor_type sn, sensorName = sensor_name sn\<rparr>"

text \<open>
  \<^verbatim>\<open>ingest\<close> returns the data point or throws; with the outcome comes the state the
  call leaves behind.
\<close>

definition ingest ::
  "string \<Rightarrow> reading \<Rightarrow> string \<Rightarrow> sensor_system \<Rightarrow> (js_error + dataPoint) \<times> sensor_system" where
  "ingest sid d now s = (case sensors s sid of
      None \<Rightarrow> (Inl (UnknownSensor sid), s)
    | Some sn \<Rightarrow>
        (let dp = dataPoint_of sn sid d now;
             sn1 = sn\<lparr>lastSeen := stamp d now, lastData := Some dp, status := ''online'',
                      stats := (stats sn)\<lparr>dataCount := dataCount (stats sn) + 1\<rparr>\<rparr>;
             s1 = s\<lparr>sensors := (sensors s)(sid \<mapsto> sn1)\<rparr>
         in case dataBuffer s1 sid of
              None \<Rightarrow> (Inl TypeError, s1)
            | Some buffer \<Rightarrow>
                (let b1 = buffer @ [dp];
                     b2 = (if length b1 > bufferSize then tl b1 else b1);
                     s2 = s1\<lparr>dataBuffer := (dataBuffer s1)(sid \<mapsto> b2)\<rparr>;
                     s3 = s2\<lparr>sensor_events := sensor_events s2 @
                               [SensorData dp, SensorDataOfType (sensor_type sn) dp]\<rparr>
                 in (Inr dp, snd (processTriggers sid sn1 dp s3)))))"


subsection \<open>The conditions of the detector\<close>

text \<open>
  The \<^verbatim>\<open>switch\<close> of \<^verbatim>\<open>processTriggers\<close> read as a table: the triggers that it can
  push for a sensor type, in the order of the pushes, and for each trigger the
  condition of the \<^verbatim>\<open>if\<close> around its push.
\<close>

definition rules_of :: "string \<Rightarrow> string list" where
  "rules_of ty =
    (if ty = ''camera'' then [''motion_detected'', ''person_detected'', ''vehicle_detected'', ''face_match'']
     else if ty = ''drone'' then [''low_battery'', ''geofence_breach'']
     else if ty = ''gps_tracker'' then [''battery_low'', ''speed_alert'', ''sos_activated'', ''geofence_breach'']
     else if ty = ''motion_sensor'' then [''motion_detected'', ''tamper_alert'']
     else if ty = ''environmental'' then [''smoke_detected'', ''gas_leak'', ''temperature_alert'']
     else if ty = ''access_control'' then [''access_denied'', ''forced_entry'']
     else if ty = ''radio'' then [''unknown_frequency'', ''jamming_detected'']
     else [])"

definition position_breach :: "sensor_system \<Rightarrow> sensor \<Rightarrow> reading \<Rightarrow> bool" where
  "position_breach s sn d = (case position d of
      None \<Rightarrow> False
    | Some pos \<Rightarrow> checkGeofenceBreach pos (geofence_ref (config sn)) s)"

definition detector_condition :: "sensor_system \<Rightarrow> sensor \<Rightarrow> reading \<Rightarrow> string \<Rightarrow> bool" where
  "detector_condition s sn d name =
    (let ty = sensor_type sn; cfg = config sn in
     (ty = ''camera'' \<and> name = ''motion_detected'' \<and> motion d) \<or>
     (ty = ''camera'' \<and> name = ''person_detected'' \<and> count_of (detected d) persons > 0) \<or>
     (ty = ''camera'' \<and> name = ''vehicle_detected'' \<and> count_of (detected d) vehicles > 0) \<or>
     (ty = ''camera'' \<and> name = ''face_match'' \<and> face_matches s (detected d) \<noteq> []) \<or>
     (ty = ''drone'' \<and> name = ''low_battery'' \<and> lt_number (battery d) 20) \<or>
     (ty = ''drone'' \<and> name = ''geofence_breach'' \<and> position_breach s sn d) \<or>
     (ty = ''gps_tracker'' \<and> name = ''battery_low'' \<and> lt_number (battery d) 15) \<or>
     (ty = ''gps_tracker'' \<and> name = ''speed_alert'' \<and>
        gt_number (speed d) (or_number (speedLimit cfg) 150)) \<or>
     (ty = ''gps_tracker'' \<and> name = ''sos_activated'' \<and> sos d) \<or>
     (ty = ''gps_tracker'' \<and> name = ''geofence_breach'' \<and> position_breach s sn d) \<or>
     (ty = ''motion_sensor'' \<and> name = ''motion_detected'' \<and> triggered d) \<or>
     (ty = ''motion_sensor'' \<and> name = ''tamper_alert'' \<and> tamper d) \<or>
     (ty = ''environmental'' \<and> name = ''smoke_detected'' \<and>
        gt_number (smoke d) (or_number (smokeThreshold cfg) 50)) \<or>
     (ty = ''environmental'' \<and> name = ''gas_leak'' \<and>
        gt_number (gas d) (or_number (gasThreshold cfg) 100)) \<or>
     (ty = ''environmental'' \<and> name = ''temperature_alert'' \<and>
        (gt_number (temperature d) (or_number (tempMax cfg) 50) \<or>
         lt_number (temperature d) (or_number (tempMin cfg) 0))) \<or>
     (ty = ''access_control'' \<and> name = ''access_denied'' \<and> \<not> granted d) \<or>
     (ty = ''access_control'' \<and> name = ''forced_entry'' \<and> event_type d = Some ''forced'') \<or>
     (ty = ''radio'' \<and> name = ''unknown_frequency'' \<and> unknown_source d) \<or>
     (ty = ''radio'' \<and> name = ''jamming_detected'' \<and> jamming d))"

text \<open>The trigger events among the events emitted.\<close>

fun trigger_events :: "sensor_event list \<Rightarrow> trigger_event list" where
  "trigger_events [] = []"
| "trigger_events (SensorTrigger t # es) = t # trigger_events es"
| "trigger_events (e # es) = trigger_events es"



text \<open>
  A tracker registered with a geofence reference that no geofence is registered under,
  and a reading with a low battery, the distress flag set and a position.
\<close>

definition tracker_options :: register_options where
  "tracker_options =
    \<lparr>reg_id = Some ''tracker-7'', reg_name = ''Convoy lead'', reg_type = ''gps_tracker'',
     reg_location = None, reg_zone = Some ''north'',
     reg_config = \<lparr>geofence_ref = Some ''perimeter'', speedLimit = None, smokeThreshold = None,
                    gasThreshold = None, tempMax = None, tempMin = None\<rparr>\<rparr>"

definition tracker_system :: sensor_system where
  "tracker_system = snd (register tracker_options ''uuid-1'' ''2024-05-01T10:00:00.000Z'' new_SensorSystem)"

definition tracker_sensor :: sensor where
  "tracker_sensor =
    \<lparr>sensor_id = ''tracker-7'', sensor_name = ''Convoy lead'', sensor_type = ''gps_tracker'',
     location = None, sensor_zone = Some ''north'', config = reg_config tracker_options,
     status = ''online'', lastSeen = ''2024-05-01T10:00:00.000Z'', lastData = None,
     registeredAt = ''2024-05-01T10:00:00.000Z'',
     stats = \<lparr>dataCount = 0, triggerCount = 0, errorCount = 0\<rparr>\<rparr>"

definition quiet_reading :: reading where
  "quiet_reading =
    \<lparr>timestamp = None, zone = None, motion = False, detected = None, battery = Undefined,
     position = None, speed = Undefined, sos = False, triggered = False, tamper = False,
     smoke = Undefined, gas = Undefined, temperature = Undefined, granted = True, event_type = None,
     unknown_source = False, jamming = False\<rparr>"

definition distress_reading :: reading where
  "distress_reading =
    quiet_reading\<lparr>timestamp := Some ''2024-05-01T10:05:00.000Z'', battery := Number 10,
                   position := Some \<lparr>lat = 9, lng = 7\<rparr>, sos := True\<rparr>"

subsection \<open>The table of rules\<close>

text \<open>
  The table of rules of the detector as its specification states it, to be compared
  with what \<^verbatim>\<open>ingest\<close> emits. Each condition is evaluated on its own. A threshold that
  the sensor configures is the configured value, and the stated default for a sensor
  that configures none. A comparison of a field of the reading holds only for a
  reading that has a number in the field.
\<close>

definition configured :: "real option \<Rightarrow> real \<Rightarrow> real" where
  "configured x default_value = (case x of Some v \<Rightarrow> v | None \<Rightarrow> default_value)"

definition field_below :: "number_field \<Rightarrow> real \<Rightarrow> bool" where
  "field_below x bound = (case x of Number v \<Rightarrow> v < bound | Null \<Rightarrow> False | Undefined \<Rightarrow> False)"

definition field_above :: "number_field \<Rightarrow> real \<Rightarrow> bool" where
  "field_above x bound = (case x of Number v \<Rightarrow> bound < v | Null \<Rightarrow> False | Undefined \<Rightarrow> False)"

definition detection_list :: "reading \<Rightarrow> (detections \<Rightarrow> string list option) \<Rightarrow> string list" where
  "detection_list d cls = (case detected d of
      Some ds \<Rightarrow> (case cls ds of Some xs \<Rightarrow> xs | None \<Rightarrow> [])
    | None \<Rightarrow> [])"

text \<open>
  The contract of the geofence evaluator. A point is outside a circle when its
  great-circle distance from the centre, by the haversine formula on a sphere of radius
  6 371 000 m, exceeds the radius. A point is inside a polygon when a ray from it
  crosses an odd number of the edges, which join each vertex to the next and the last
  to the first. A reference that is missing or names no geofence gives no breach.
\<close>

definition great_circle_distance :: "latlng \<Rightarrow> latlng \<Rightarrow> real" where
  "great_circle_distance p q =
    (let radians = (\<lambda>degrees. degrees * pi / 180);
         h = (sin (radians (lat q - lat p) / 2)) ^ 2 +
             cos (radians (lat p)) * cos (radians (lat q)) * (sin (radians (lng q - lng p) / 2)) ^ 2
     in 2 * 6371000 * arcsin (sqrt h))"

definition polygon_edges :: "latlng list \<Rightarrow> (latlng \<times> latlng) list" where
  "polygon_edges ps = (if ps = [] then [] else zip ps (tl ps @ [hd ps]))"

definition ray_crosses :: "latlng \<Rightarrow> latlng \<times> latlng \<Rightarrow> bool" where
  "ray_crosses p e = (case e of (a, b) \<Rightarrow>
      (lng p < lng a) \<noteq> (lng p < lng b) \<and>
      lat p < lat a + (lng p - lng a) * (lat b - lat a) / (lng b - lng a))"

definition inside_polygon :: "latlng \<Rightarrow> latlng list \<Rightarrow> bool" where
  "inside_polygon p ps = odd (length (filter (ray_crosses p) (polygon_edges ps)))"

definition outside_fence :: "sensor_system \<Rightarrow> string option \<Rightarrow> latlng \<Rightarrow> bool" where
  "outside_fence s fence p = (case fence of
      None \<Rightarrow> False
    | Some gid \<Rightarrow> (case geofences s gid of
          None \<Rightarrow> False
        | Some (Circle centre radius) \<Rightarrow> radius < great_circle_distance p centre
        | Some (Polygon ps) \<Rightarrow> \<not> inside_polygon p ps
        | Some (OtherFence ty) \<Rightarrow> False))"

definition rule_satisfied :: "sensor_system \<Rightarrow> sensor \<Rightarrow> reading \<Rightarrow> string \<Rightarrow> bool" where
  "rule_satisfied s sn d name =
    (let ty = sensor_type sn; cfg = config sn;
         outside = (case position d of Some p \<Rightarrow> outside_fence s (geofence_ref cfg) p | None \<Rightarrow> False)
     in
     (ty = ''camera'' \<and> name = ''motion_detected'' \<and> motion d) \<or>
     (ty = ''camera'' \<and> name = ''person_detected'' \<and> detection_list d persons \<noteq> []) \<or>
     (ty = ''camera'' \<and> name = ''vehicle_detected'' \<and> detection_list d vehicles \<noteq> []) \<or>
     (ty = ''camera'' \<and> name = ''face_match'' \<and>
        list_ex (\<lambda>f. watchlist_faces s f \<noteq> None) (detection_list d faces)) \<or>
     (ty = ''drone'' \<and> name = ''low_battery'' \<and> field_below (battery d) 20) \<or>
     (ty = ''drone'' \<and> name = ''geofence_breach'' \<and> outside) \<or>
     (ty = ''gps_tracker'' \<and> name = ''battery_low'' \<and> field_below (battery d) 15) \<or>
     (ty = ''gps_tracker'' \<and> name = ''speed_alert'' \<and>
        field_above (speed d) (configured (speedLimit cfg) 150)) \<or>
     (ty = ''gps_tracker'' \<and> name = ''sos_activated'' \<and> sos d) \<or>
     (ty = ''gps_tracker'' \<and> name = ''geofence_breach'' \<and> outside) \<or>
     (ty = ''motion_sensor'' \<and> name = ''motion_detected'' \<and> triggered d) \<or>
     (ty = ''motion_sensor'' \<and> name = ''tamper_alert'' \<and> tamper d) \<or>
     (ty = ''environmental'' \<and> name = ''smoke_detected'' \<and>
        field_above (smoke d) (configured (smokeThreshold cfg) 50)) \<or>
     (ty = ''environmental'' \<and> name = ''gas_leak'' \<and>
        field_above (gas d) (configured (gasThreshold cfg) 100)) \<or>
     (ty = ''environmental'' \<and> name = ''temperature_alert'' \<and>
        (field_below (temperature d) (configured (tempMin cfg) 0) \<or>
         field_above (temperature d) (configured (tempMax cfg) 50))) \<or>
     (ty = ''access_control'' \<and> name = ''access_denied'' \<and> \<not> granted d) \<or>
     (ty = ''access_control'' \<and> name = ''forced_entry'' \<and> event_type d = Some ''forced'') \<or>
     (ty = ''radio'' \<and> name = ''unknown_frequency'' \<and> unknown_source d) \<or>
     (ty = ''radio'' \<and> name = ''jamming_detected'' \<and> jamming d))"

text \<open>
  An environmental sensor configured to report any gas at all, with a gas threshold of
  zero, and a reading with smoke above the default threshold and a little gas.
\<close>

definition vault_options :: register_options where
  "vault_options =
    \<lparr>reg_id = Some ''env-1'', reg_name = ''Vault air'', reg_type = ''environmental'',
     reg_location = None, reg_zone = Some ''vault'',
     reg_config = \<lparr>geofence_ref = None, speedLimit = None, smokeThreshold = None,
                    gasThreshold = Some 0, tempMax = None, tempMin = None\<rparr>\<rparr>"

definition vault_system :: sensor_system where
  "vault_system = snd (register vault_options ''uuid-2'' ''2024-05-01T11:00:00.000Z'' new_SensorSystem)"

definition vault_sensor :: sensor where
  "vault_sensor =
    \<lparr>sensor_id = ''env-1'', sensor_name = ''Vault air'', sensor_type = ''environmental'',
     location = None, sensor_zone = Some ''vault'', config = reg_config vault_options,
     status = ''online'', lastSeen = ''2024-05-01T11:00:00.000Z'', lastData = None,
     registeredAt = ''2024-05-01T11:00:00.000Z'',
     stats = \<lparr>dataCount = 0, triggerCount = 0, errorCount = 0\<rparr>\<rparr>"

definition leak_reading :: reading where
  "leak_reading =
    quiet_reading\<lparr>timestamp := Some ''2024-05-01T11:05:00.000Z'', smoke := Number 60, gas := Number 1\<rparr>"

section \<open>Properties of the alert lifecycle manager\<close>

subsection \<open>Projections of the timer and event helpers\<close>

lemma alerts_clearEscalation [simp]: "alerts (clearEscalation i s) = alerts s"
  and history_clearEscalation [simp]: "history (clearEscalation i s) = history s"
  and emitted_clearEscalation [simp]: "emitted (clearEscalation i s) = emitted s"
  and nextTimer_clearEscalation [simp]: "nextTimer (clearEscalation i s) = nextTimer s"
  by (simp_all add: clearEscalation_def split: option.splits)

lemma alerts_setupEscalation [simp]: "alerts (setupEscalation a now s) = alerts s"
  and history_setupEscalation [simp]: "history (setupEscalation a now s) = history s"
  and emitted_setupEscalation [simp]: "emitted (setupEscalation a now s) = emitted s"
  by (simp_all add: setupEscalation_def Let_def split: option.splits)

lemma alerts_emit [simp]: "alerts (emit n a s) = alerts s"
  and history_emit [simp]: "history (emit n a s) = history s"
  and escalationTimers_emit [simp]: "escalationTimers (emit n a s) = escalationTimers s"
  and timeouts_emit [simp]: "timeouts (emit n a s) = timeouts s"
  and nextTimer_emit [simp]: "nextTimer (emit n a s) = nextTimer s"
  and emitted_emit [simp]: "emitted (emit n a s) = emitted s @ [(n, a)]"
  by (simp_all add: emit_def)

lemma unknown_priority_lookup:
  "p \<notin> set escalation_order \<Longrightarrow> map_of priorities p = None"
  by (auto simp: escalation_order_def priorities_def)

lemma indexOf_absent: "x \<notin> set xs \<Longrightarrow> indexOf xs x = -1"
  by (induction xs) (auto simp: Let_def)

subsection \<open>Priorities outside the table\<close>

text \<open>
  Claim C10. \<^verbatim>\<open>create\<close> does not validate the priority string: for every priority
  \<open>p\<close> that is none of info, low, medium, high, critical, the alert it creates keeps
  \<open>p\<close> and has rank 3; a following \<^verbatim>\<open>escalate\<close> of that alert finds index \<open>-1\<close>, so it
  sets the priority to info and the rank to 1, which is lower than the rank before.
\<close>

theorem create_unvalidated_priority:
  assumes "p \<notin> set escalation_order"
  shows "(let (a, s1) = create (options\<lparr>opt_priority := Some p\<rparr>) uuid now s;
              (r, s2) = escalate uuid reason now' s1
          in priority a = p \<and> priorityLevel a = 3 \<and> map_of (alerts s1) uuid = Some a \<and>
             (\<exists>a'. r = Some a' \<and> map_of (alerts s2) uuid = Some a' \<and>
                   priority a' = ''info'' \<and> priorityLevel a' = 1 \<and>
                   priorityLevel a' < priorityLevel a \<and>
                   escalationLevel a' = escalationLevel a + 1))"
  using assms
  by (simp add: create_def escalate_def Let_def or_default_def level_or_3_def timeout_of_def
      unknown_priority_lookup indexOf_absent update_conv' add_note_def)
     (simp add: escalation_order_def priorities_def timeout_of_def)

theorem create_unvalidated_priority_witness:
  "''urgent'' \<notin> set escalation_order \<and>
   (let (a, s1) = create urgent_options ''a1'' 10 new_AlertSystem;
        (r, s2) = escalate ''a1'' None 20 s1
    in priority a = ''urgent'' \<and> priorityLevel a = 3 \<and>
       (\<exists>a'. r = Some a' \<and> priority a' = ''info'' \<and> priorityLevel a' = 1))"
proof -
  have h: "''urgent'' \<notin> set escalation_order"
    by (simp add: escalation_order_def)
  have u: "urgent_options\<lparr>opt_priority := Some ''urgent''\<rparr> = urgent_options"
    by (simp add: urgent_options_def)
  show ?thesis
    using h create_unvalidated_priority [OF h, of urgent_options "''a1''" 10 new_AlertSystem None 20]
    by (auto simp: u Let_def split: prod.splits)
qed

subsection \<open>The order of the active alerts\<close>

lemma compareFn_le: "compareFn a b \<le> 0 \<longleftrightarrow> attention_order a b"
  by (auto simp: compareFn_def attention_order_def)

lemma mset_insort_by [simp]: "mset (insort_by cmp x xs) = add_mset x (mset xs)"
  by (induction xs) auto

lemma mset_sort_by [simp]: "mset (sort_by cmp xs) = mset xs"
  by (induction xs) (auto simp: sort_by_def)

lemma set_insort_by [simp]: "set (insort_by cmp x xs) = insert x (set xs)"
  by (induction xs) auto

lemma set_sort_by [simp]: "set (sort_by cmp xs) = set xs"
  by (induction xs) (auto simp: sort_by_def)

lemma attention_order_trans:
  "attention_order a b \<Longrightarrow> attention_order b c \<Longrightarrow> attention_order a c"
  by (auto simp: attention_order_def)

lemma attention_order_total: "\<not> attention_order a b \<Longrightarrow> attention_order b a"
  by (auto simp: attention_order_def)

lemma sorted_insort_by:
  "sorted_wrt attention_order xs \<Longrightarrow> sorted_wrt attention_order (insort_by compareFn x xs)"
proof (induction xs)
  case Nil
  then show ?case by simp
next
  case (Cons y ys)
  show ?case
  proof (cases "attention_order x y")
    case True
    with Cons.prems show ?thesis
      by (auto simp: compareFn_le intro: attention_order_trans)
  next
    case False
    then have "attention_order y x" by (rule attention_order_total)
    with False Cons show ?thesis
      by (auto simp: compareFn_le)
  qed
qed

lemma sorted_sort_by: "sorted_wrt attention_order (sort_by compareFn xs)"
  by (induction xs) (auto simp: sort_by_def sorted_insort_by simp del: insort_by.simps)

lemma getActive_filter:
  "getActive f s =
     sort_by compareFn (filter (\<lambda>a. \<not> resolved a \<and> passes f a) (map snd (alerts s)))"
  by (auto simp: getActive_def passes_def Let_def
      intro!: arg_cong [where f = "sort_by compareFn"] filter_cong)

lemma getActive_four:
  assumes "t1 < t2" "t2 < t3" "t3 < t4" "distinct [i1, i2, i3, i4]"
  shows "map (\<lambda>a. (alert_id a, priority a)) (getActive no_filters
            (run [Create (o1\<lparr>opt_priority := Some ''low''\<rparr>) i1 t1,
                  Create (o2\<lparr>opt_priority := Some ''critical''\<rparr>) i2 t2,
                  Create (o3\<lparr>opt_priority := Some ''high''\<rparr>) i3 t3,
                  Create (o4\<lparr>opt_priority := Some ''critical''\<rparr>) i4 t4] new_AlertSystem))
         = [(i4, ''critical''), (i2, ''critical''), (i3, ''high''), (i1, ''low'')]"
  using assms
  by (simp add: getActive_def no_filters_def truthy_def Let_def create_def new_AlertSystem_def
      sort_by_def compareFn_def or_default_def level_or_3_def priorities_def)

text \<open>
  Claim C2. In every state, \<^verbatim>\<open>getActive(filters)\<close> returns exactly the unresolved
  alerts of the live set that the filters let through, each as often as it is there,
  ordered by descending priority rank and, within one rank, by descending creation time.
  In particular, after creating alerts of priorities low, critical, high, critical at
  strictly increasing instants in an empty system, it returns the newer critical alert,
  the older critical alert, the high one and the low one, in this order.
\<close>

theorem getActive_attention_order:
  "mset (getActive f s) = mset (filter (\<lambda>a. \<not> resolved a \<and> passes f a) (map snd (alerts s))) \<and>
   sorted_wrt attention_order (getActive f s) \<and>
   (t1 < t2 \<and> t2 < t3 \<and> t3 < t4 \<and> distinct [i1, i2, i3, i4] \<longrightarrow>
      map (\<lambda>a. (alert_id a, priority a)) (getActive no_filters
            (run [Create (o1\<lparr>opt_priority := Some ''low''\<rparr>) i1 t1,
                  Create (o2\<lparr>opt_priority := Some ''critical''\<rparr>) i2 t2,
                  Create (o3\<lparr>opt_priority := Some ''high''\<rparr>) i3 t3,
                  Create (o4\<lparr>opt_priority := Some ''critical''\<rparr>) i4 t4] new_AlertSystem))
      = [(i4, ''critical''), (i2, ''critical''), (i3, ''high''), (i1, ''low'')])"
proof (intro conjI impI)
  show "mset (getActive f s) = mset (filter (\<lambda>a. \<not> resolved a \<and> passes f a) (map snd (alerts s)))"
    by (simp add: getActive_filter)
  show "sorted_wrt attention_order (getActive f s)"
    by (simp add: getActive_filter sorted_sort_by)
next
  assume "t1 < t2 \<and> t2 < t3 \<and> t3 < t4 \<and> distinct [i1, i2, i3, i4]"
  then show "map (\<lambda>a. (alert_id a, priority a)) (getActive no_filters
            (run [Create (o1\<lparr>opt_priority := Some ''low''\<rparr>) i1 t1,
                  Create (o2\<lparr>opt_priority := Some ''critical''\<rparr>) i2 t2,
                  Create (o3\<lparr>opt_priority := Some ''high''\<rparr>) i3 t3,
                  Create (o4\<lparr>opt_priority := Some ''critical''\<rparr>) i4 t4] new_AlertSystem))
      = [(i4, ''critical''), (i2, ''critical''), (i3, ''high''), (i1, ''low'')]"
    by (intro getActive_four) simp_all
qed

theorem getActive_attention_order_witness:
  "(1::nat) < 2 \<and> (2::nat) < 3 \<and> (3::nat) < 4 \<and> distinct [''a'', ''b'', ''c'', ''d''] \<and>
   map (\<lambda>a. (alert_id a, priority a)) (getActive no_filters
      (run [Create (plain_options\<lparr>opt_priority := Some ''low''\<rparr>) ''a'' 1,
            Create (plain_options\<lparr>opt_priority := Some ''critical''\<rparr>) ''b'' 2,
            Create (plain_options\<lparr>opt_priority := Some ''high''\<rparr>) ''c'' 3,
            Create (plain_options\<lparr>opt_priority := Some ''critical''\<rparr>) ''d'' 4] new_AlertSystem))
   = [(''d'', ''critical''), (''b'', ''critical''), (''c'', ''high''), (''a'', ''low'')]"
  using getActive_attention_order [of no_filters new_AlertSystem 1 2 3 4 "''a''" "''b''" "''c''" "''d''"
      plain_options plain_options plain_options plain_options]
  by simp

subsection \<open>What each operation does to the state\<close>

lemma indexOf_ge: "- 1 \<le> indexOf xs x"
  by (induction xs) (auto simp: Let_def)

lemma length_escalation_order: "length escalation_order = 5"
  by (simp add: escalation_order_def)

lemma level_in_order:
  assumes "n < 5"
  shows "level (the (map_of priorities (escalation_order ! n))) = level_or_3 (escalation_order ! n)"
proof -
  from assms have "n = 0 \<or> n = 1 \<or> n = 2 \<or> n = 3 \<or> n = 4" by arith
  then show ?thesis
    by (elim disjE) (simp_all add: escalation_order_def priorities_def level_or_3_def)
qed

lemma next_level:
  assumes "indexOf escalation_order p < int (length escalation_order) - 1"
  shows "level (the (map_of priorities (escalation_order ! nat (indexOf escalation_order p + 1))))
         = level_or_3 (escalation_order ! nat (indexOf escalation_order p + 1))"
proof -
  have "- 1 \<le> indexOf escalation_order p" by (rule indexOf_ge)
  with assms have "nat (indexOf escalation_order p + 1) < 5"
    by (simp add: length_escalation_order)
  then show ?thesis by (rule level_in_order)
qed
lemma live_ids_dom: "live_ids s = dom (map_of (alerts s))"
  by (simp add: live_ids_def dom_map_of_conv_image_fst)

lemma add_note_simps [simp]:
  "alert_id (add_note ty u txt now a) = alert_id a"
  "priority (add_note ty u txt now a) = priority a"
  "priorityLevel (add_note ty u txt now a) = priorityLevel a"
  "resolved (add_note ty u txt now a) = resolved a"
  "acknowledged (add_note ty u txt now a) = acknowledged a"
  "escalationLevel (add_note ty u txt now a) = escalationLevel a"
  "createdAt (add_note ty u txt now a) = createdAt a"
  by (simp_all add: add_note_def)

lemma live_okD:
  "live_ok s \<Longrightarrow> map_of (alerts s) k = Some a \<Longrightarrow>
     alert_id a = k \<and> \<not> resolved a \<and> priorityLevel a = level_or_3 (priority a)"
  by (simp add: live_ok_def del: map_of_eq_Some_iff)

lemma live_ok_cong: "alerts s' = alerts s \<Longrightarrow> live_ok s' = live_ok s"
  by (simp add: live_ok_def)
lemma live_okI:
  assumes ok: "live_ok s" and upd: "alerts s' = AList.update k a (alerts s)"
    and a: "alert_id a = k" "\<not> resolved a" "priorityLevel a = level_or_3 (priority a)"
  shows "live_ok s'"
  unfolding live_ok_def
proof (intro conjI allI impI)
  show "distinct (map fst (alerts s'))"
    using ok by (simp add: upd live_ok_def distinct_update)
next
  fix k' a'
  assume "map_of (alerts s') k' = Some a'"
  then have "(k' = k \<and> a' = a) \<or> (k' \<noteq> k \<and> map_of (alerts s) k' = Some a')"
    by (auto simp del: map_of_eq_Some_iff simp: upd update_conv' split: if_splits)
  then show "alert_id a' = k'" "\<not> resolved a'" "priorityLevel a' = level_or_3 (priority a')"
    using ok a unfolding live_ok_def by blast+
qed
lemma acknowledge_None:
  "map_of (alerts s) i = None \<Longrightarrow> acknowledge i u nt now s = (None, s)"
  by (simp add: acknowledge_def)

lemma acknowledge_Some:
  assumes "map_of (alerts s) i = Some a0"
  obtains a where
    "acknowledge i u nt now s =
       (Some a, emit ''alert:acknowledged'' a (clearEscalation i (s\<lparr>alerts := AList.update i a (alerts s)\<rparr>)))"
    "alert_id a = alert_id a0" "priority a = priority a0" "priorityLevel a = priorityLevel a0"
    "resolved a = resolved a0" "acknowledged a" "escalationLevel a = escalationLevel a0"
    "createdAt a = createdAt a0"
proof -
  let ?a1 = "a0\<lparr>acknowledged := True, acknowledgedBy := Some u, acknowledgedAt := Some now, updatedAt := now\<rparr>"
  let ?a = "if truthy nt then add_note ''acknowledgment'' u (or_default [] nt) now ?a1 else ?a1"
  show thesis
    by (rule that [of ?a]) (simp_all add: acknowledge_def assms Let_def)
qed

lemma resolve_None:
  "map_of (alerts s) i = None \<Longrightarrow> resolve i u res now s = (None, s)"
  by (simp add: resolve_def)

lemma resolve_Some:
  assumes "map_of (alerts s) i = Some a0"
  obtains a where
    "resolve i u res now s =
       (Some a, emit ''alert:resolved'' a
          ((addToHistory a (clearEscalation i (s\<lparr>alerts := AList.update i a (alerts s)\<rparr>)))
             \<lparr>alerts := AList.delete i (AList.update i a (alerts s))\<rparr>))"
    "alert_id a = alert_id a0" "priority a = priority a0" "priorityLevel a = priorityLevel a0"
    "resolved a" "acknowledged a = acknowledged a0" "escalationLevel a = escalationLevel a0"
    "createdAt a = createdAt a0"
proof -
  let ?a1 = "a0\<lparr>resolved := True, resolvedBy := Some u, resolvedAt := Some now, updatedAt := now\<rparr>"
  let ?a = "if truthy res then add_note ''resolution'' u (or_default [] res) now ?a1 else ?a1"
  show thesis
    by (rule that [of ?a]) (simp_all add: resolve_def assms Let_def addToHistory_def)
qed

lemma addNote_None:
  "map_of (alerts s) i = None \<Longrightarrow> addNote i u txt now s = (None, s)"
  by (simp add: addNote_def)

lemma addNote_Some:
  assumes "map_of (alerts s) i = Some a0"
  obtains a where
    "addNote i u txt now s =
       (Some a, emit ''alert:updated'' a (s\<lparr>alerts := AList.update i a (alerts s)\<rparr>))"
    "alert_id a = alert_id a0" "priority a = priority a0" "priorityLevel a = priorityLevel a0"
    "resolved a = resolved a0" "acknowledged a = acknowledged a0"
    "escalationLevel a = escalationLevel a0" "createdAt a = createdAt a0"
  by (rule that [of "(add_note ''note'' u txt now a0)\<lparr>updatedAt := now\<rparr>"])
     (simp_all add: addNote_def assms Let_def)

lemma assign_None:
  "map_of (alerts s) i = None \<Longrightarrow> assign i u now s = (None, s)"
  by (simp add: assign_def)

lemma assign_Some:
  assumes "map_of (alerts s) i = Some a0"
  obtains a where
    "assign i u now s =
       (Some a, emit ''alert:assigned'' a (s\<lparr>alerts := AList.update i a (alerts s)\<rparr>))"
    "alert_id a = alert_id a0" "priority a = priority a0" "priorityLevel a = priorityLevel a0"
    "resolved a = resolved a0" "acknowledged a = acknowledged a0"
    "escalationLevel a = escalationLevel a0" "createdAt a = createdAt a0"
  by (rule that [of "add_note ''assignment'' ''system'' (''Assigned to '' @ u) now
                      (a0\<lparr>assignedTo := Some u, updatedAt := now\<rparr>)"])
     (simp_all add: assign_def assms Let_def)

lemma escalate_None:
  "map_of (alerts s) i = None \<Longrightarrow> escalate i r now s = (None, s)"
  by (simp add: escalate_def)

lemma escalate_top:
  assumes "map_of (alerts s) i = Some a0"
    and "\<not> indexOf escalation_order (priority a0) < int (length escalation_order) - 1"
  shows "escalate i r now s = (Some a0, s)"
  using assms by (simp add: escalate_def Let_def)

lemma escalate_Some:
  assumes "map_of (alerts s) i = Some a0"
    and "indexOf escalation_order (priority a0) < int (length escalation_order) - 1"
  obtains a where
    "escalate i r now s =
       (Some a, emit ''alert'' a (emit ''alert:escalated'' a
          (if timeout_of (priority a) \<noteq> None
           then setupEscalation a now (s\<lparr>alerts := AList.update i a (alerts s)\<rparr>)
           else s\<lparr>alerts := AList.update i a (alerts s)\<rparr>)))"
    "alert_id a = alert_id a0"
    "priority a = escalation_order ! nat (indexOf escalation_order (priority a0) + 1)"
    "priorityLevel a = level_or_3 (priority a)"
    "resolved a = resolved a0" "acknowledged a = acknowledged a0"
    "escalationLevel a = escalationLevel a0 + 1" "createdAt a = createdAt a0"
proof -
  let ?p = "escalation_order ! nat (indexOf escalation_order (priority a0) + 1)"
  let ?a = "add_note ''escalation'' ''system'' (or_default default_reason r) now
              (a0\<lparr>priority := ?p, priorityLevel := level (the (map_of priorities ?p)),
                   escalationLevel := escalationLevel a0 + 1, updatedAt := now\<rparr>)"
  show thesis
    using assms(2) next_level [OF assms(2)]
    by (intro that [of ?a]) (simp_all add: escalate_def assms(1) Let_def)
qed

lemma create_shape:
  obtains a where
    "create options uuid now s =
       (a, emit ''alert'' a (emit ''alert:created'' a
          (if or_default True (opt_autoEscalate options) \<and> timeout_of (priority a) \<noteq> None
           then setupEscalation a now (s\<lparr>alerts := AList.update uuid a (alerts s)\<rparr>)
           else s\<lparr>alerts := AList.update uuid a (alerts s)\<rparr>)))"
    "alert_id a = uuid" "priority a = or_default ''medium'' (opt_priority options)"
    "priorityLevel a = level_or_3 (priority a)"
    "\<not> resolved a" "\<not> acknowledged a" "escalationLevel a = 0" "createdAt a = now"
proof (cases "or_default True (opt_autoEscalate options) \<and>
    timeout_of (or_default ''medium'' (opt_priority options)) \<noteq> None")
  case True
  show thesis
    by (rule that [of "fst (create options uuid now s)"])
       (simp_all only: create_def Let_def True if_True fst_conv alert.simps not_False_eq_True)
next
  case False
  show thesis
    by (rule that [of "fst (create options uuid now s)"])
       (simp_all only: create_def Let_def False if_False fst_conv alert.simps, simp_all)
qed
lemma evolves_refl [simp]: "evolves a a"
  by (simp add: evolves_def)

lemma evolves_trans: "evolves a b \<Longrightarrow> evolves b c \<Longrightarrow> evolves a c"
  unfolding evolves_def by (intro conjI impI; force)

lemma next_in_order:
  assumes "p \<in> set escalation_order"
    and "indexOf escalation_order p < int (length escalation_order) - 1"
  shows "escalation_order ! nat (indexOf escalation_order p + 1) \<in> set escalation_order \<and>
         level_or_3 (escalation_order ! nat (indexOf escalation_order p + 1)) = level_or_3 p + 1"
proof -
  from assms(1) have "p = ''info'' \<or> p = ''low'' \<or> p = ''medium'' \<or> p = ''high'' \<or> p = ''critical''"
    by (simp add: escalation_order_def)
  then show ?thesis
    using assms(2)
    by (elim disjE) (simp_all add: escalation_order_def level_or_3_def priorities_def)
qed

lemma alerts_step_same: "alerts s' = alerts s \<Longrightarrow> alerts_step C s s'"
  by (auto simp del: map_of_eq_Some_iff simp: alerts_step_def)

lemma alerts_step_update:
  assumes "map_of (alerts s) i = Some a0" "evolves a0 a" "alerts s' = AList.update i a (alerts s)"
  shows "alerts_step C s s'"
  using assms
  by (auto simp del: map_of_eq_Some_iff simp: alerts_step_def update_conv' split: if_splits)

lemma alerts_step_delete: "alerts s' = AList.delete i (alerts s) \<Longrightarrow> alerts_step C s s'"
  by (auto simp del: map_of_eq_Some_iff simp: alerts_step_def delete_conv' split: if_splits)

lemma alerts_step_create:
  "alerts s' = AList.update u a (alerts s) \<Longrightarrow> alerts_step {u} s s'"
  by (auto simp del: map_of_eq_Some_iff simp: alerts_step_def update_conv' split: if_splits)

lemma alerts_step_mono: "alerts_step C s s' \<Longrightarrow> C \<subseteq> D \<Longrightarrow> alerts_step D s s'"
  unfolding alerts_step_def by blast

lemma alerts_step_trans:
  assumes "alerts_step C s s'" "alerts_step D s' s''"
  shows "alerts_step (C \<union> D) s s''"
  unfolding alerts_step_def
proof (intro allI impI)
  fix j a''
  assume "map_of (alerts s'') j = Some a''"
  with assms(2) consider "j \<in> D" | a' where "map_of (alerts s') j = Some a'" "evolves a' a''"
    unfolding alerts_step_def by blast
  then show "j \<in> C \<union> D \<or> (\<exists>a. map_of (alerts s) j = Some a \<and> evolves a a'')"
  proof cases
    case 1
    then show ?thesis by simp
  next
    case 2
    with assms(1) consider "j \<in> C" | a where "map_of (alerts s) j = Some a" "evolves a a'"
      unfolding alerts_step_def by blast
    then show ?thesis
    proof cases
      case 1
      then show ?thesis by simp
    next
      case 2
      with \<open>evolves a' a''\<close> show ?thesis by (blast intro: evolves_trans)
    qed
  qed
qed
lemma alerts_addToHistory [simp]: "alerts (addToHistory a s) = alerts s"
  and timeouts_addToHistory [simp]: "timeouts (addToHistory a s) = timeouts s"
  and escalationTimers_addToHistory [simp]: "escalationTimers (addToHistory a s) = escalationTimers s"
  and nextTimer_addToHistory [simp]: "nextTimer (addToHistory a s) = nextTimer s"
  by (simp_all add: addToHistory_def Let_def)

lemma step_acknowledge: "alerts_step C s (snd (acknowledge i u nt now s))"
proof (cases "map_of (alerts s) i")
  case None
  then show ?thesis by (simp add: acknowledge_None alerts_step_same)
next
  case (Some a0)
  then obtain a where a:
    "acknowledge i u nt now s =
       (Some a, emit ''alert:acknowledged'' a (clearEscalation i (s\<lparr>alerts := AList.update i a (alerts s)\<rparr>)))"
    "alert_id a = alert_id a0" "priority a = priority a0" "priorityLevel a = priorityLevel a0"
    "resolved a = resolved a0" "acknowledged a" "escalationLevel a = escalationLevel a0"
    "createdAt a = createdAt a0"
    by (rule acknowledge_Some)
  have "evolves a0 a" using a(2-) by (simp add: evolves_def)
  with Some show ?thesis
    by (rule alerts_step_update) (simp add: a(1))
qed

lemma step_addNote: "alerts_step C s (snd (addNote i u txt now s))"
proof (cases "map_of (alerts s) i")
  case None
  then show ?thesis by (simp add: addNote_None alerts_step_same)
next
  case (Some a0)
  then obtain a where a:
    "addNote i u txt now s =
       (Some a, emit ''alert:updated'' a (s\<lparr>alerts := AList.update i a (alerts s)\<rparr>))"
    "alert_id a = alert_id a0" "priority a = priority a0" "priorityLevel a = priorityLevel a0"
    "resolved a = resolved a0" "acknowledged a = acknowledged a0"
    "escalationLevel a = escalationLevel a0" "createdAt a = createdAt a0"
    by (rule addNote_Some)
  have "evolves a0 a" using a(2-) by (simp add: evolves_def)
  with Some show ?thesis
    by (rule alerts_step_update) (simp add: a(1))
qed

lemma step_assign: "alerts_step C s (snd (assign i u now s))"
proof (cases "map_of (alerts s) i")
  case None
  then show ?thesis by (simp add: assign_None alerts_step_same)
next
  case (Some a0)
  then obtain a where a:
    "assign i u now s =
       (Some a, emit ''alert:assigned'' a (s\<lparr>alerts := AList.update i a (alerts s)\<rparr>))"
    "alert_id a = alert_id a0" "priority a = priority a0" "priorityLevel a = priorityLevel a0"
    "resolved a = resolved a0" "acknowledged a = acknowledged a0"
    "escalationLevel a = escalationLevel a0" "createdAt a = createdAt a0"
    by (rule assign_Some)
  have "evolves a0 a" using a(2-) by (simp add: evolves_def)
  with Some show ?thesis
    by (rule alerts_step_update) (simp add: a(1))
qed

lemma alerts_resolve: "alerts (snd (resolve i u res now s)) = AList.delete i (alerts s)"
proof (cases "map_of (alerts s) i")
  case None
  then have "i \<notin> fst ` set (alerts s)" by (simp add: map_of_eq_None_iff)
  with None show ?thesis by (simp add: resolve_None)
next
  case (Some a0)
  then obtain a where
    "resolve i u res now s =
       (Some a, emit ''alert:resolved'' a
          ((addToHistory a (clearEscalation i (s\<lparr>alerts := AList.update i a (alerts s)\<rparr>)))
             \<lparr>alerts := AList.delete i (AList.update i a (alerts s))\<rparr>))"
    by (rule resolve_Some)
  then show ?thesis by (simp add: delete_update_same)
qed

lemma step_resolve: "alerts_step C s (snd (resolve i u res now s))"
  by (rule alerts_step_delete) (rule alerts_resolve)

lemma escalate_evolves:
  assumes "map_of (alerts s) i = Some a0"
    and "indexOf escalation_order (priority a0) < int (length escalation_order) - 1"
    and "alert_id a = alert_id a0"
    "priority a = escalation_order ! nat (indexOf escalation_order (priority a0) + 1)"
    "priorityLevel a = level_or_3 (priority a)"
    "resolved a = resolved a0" "acknowledged a = acknowledged a0"
    "escalationLevel a = escalationLevel a0 + 1" "createdAt a = createdAt a0"
  shows "evolves a0 a"
  unfolding evolves_def
  using assms(3-) next_in_order [OF _ assms(2)] by auto

lemma alerts_escalate_Some:
  assumes "escalate i r now s =
       (Some a, emit ''alert'' a (emit ''alert:escalated'' a
          (if timeout_of (priority a) \<noteq> None
           then setupEscalation a now (s\<lparr>alerts := AList.update i a (alerts s)\<rparr>)
           else s\<lparr>alerts := AList.update i a (alerts s)\<rparr>)))"
  shows "alerts (snd (escalate i r now s)) = AList.update i a (alerts s)"
  by (simp add: assms)

lemma step_escalate: "alerts_step C s (snd (escalate i r now s))"
proof (cases "map_of (alerts s) i")
  case None
  then show ?thesis by (simp add: escalate_None alerts_step_same)
next
  case (Some a0)
  show ?thesis
  proof (cases "indexOf escalation_order (priority a0) < int (length escalation_order) - 1")
    case False
    with Some show ?thesis by (simp add: escalate_top alerts_step_same)
  next
    case True
    with Some obtain a where a:
      "escalate i r now s =
       (Some a, emit ''alert'' a (emit ''alert:escalated'' a
          (if timeout_of (priority a) \<noteq> None
           then setupEscalation a now (s\<lparr>alerts := AList.update i a (alerts s)\<rparr>)
           else s\<lparr>alerts := AList.update i a (alerts s)\<rparr>)))"
      "alert_id a = alert_id a0"
      "priority a = escalation_order ! nat (indexOf escalation_order (priority a0) + 1)"
      "priorityLevel a = level_or_3 (priority a)"
      "resolved a = resolved a0" "acknowledged a = acknowledged a0"
      "escalationLevel a = escalationLevel a0 + 1" "createdAt a = createdAt a0"
      by (rule escalate_Some)
    have "evolves a0 a" by (rule escalate_evolves [OF Some True a(2-)])
    with Some show ?thesis
      by (rule alerts_step_update) (rule alerts_escalate_Some [OF a(1)])
  qed
qed

lemma alerts_create:
  "alerts (snd (create options uuid now s)) = AList.update uuid (fst (create options uuid now s)) (alerts s)"
  by (rule create_shape [of options uuid now s]) simp

lemma step_create: "alerts_step {uuid} s (snd (create options uuid now s))"
  by (rule alerts_step_create) (rule alerts_create)

lemma step_fire: "alerts_step C s (fire h now s)"
proof -
  have "alerts_step C s (snd (escalate i None now (s\<lparr>timeouts := x\<rparr>)))" for i x
  proof -
    have "alerts_step C (s\<lparr>timeouts := x\<rparr>) (snd (escalate i None now (s\<lparr>timeouts := x\<rparr>)))"
      by (rule step_escalate)
    then show ?thesis by (simp add: alerts_step_def)
  qed
  then show ?thesis
    by (simp add: fire_def alerts_step_same split: option.splits)
qed

lemma step_exec: "alerts_step (set (created_ids [e])) s (exec e s)"
  by (cases e)
     (simp_all add: step_create step_acknowledge step_resolve step_escalate step_addNote
        step_assign step_fire)

lemma step_run: "alerts_step (set (created_ids es)) s (run es s)"
proof (induction es arbitrary: s)
  case Nil
  show ?case by (simp add: alerts_step_same)
next
  case (Cons e es)
  have "alerts_step (set (created_ids [e]) \<union> set (created_ids es)) s (run es (exec e s))"
    by (rule alerts_step_trans [OF step_exec Cons.IH])
  moreover have "set (created_ids [e]) \<union> set (created_ids es) = set (created_ids (e # es))"
    by (cases e) simp_all
  ultimately show ?case by simp
qed
lemma timers_registered_alerts [simp]:
  "timers_registered (s\<lparr>alerts := x\<rparr>) = timers_registered s"
  by (simp add: timers_registered_def)

lemma timers_registered_emit [simp]: "timers_registered (emit n a s) = timers_registered s"
  by (simp add: timers_registered_def)

lemma timers_registered_addToHistory [simp]:
  "timers_registered (addToHistory a s) = timers_registered s"
  by (simp add: timers_registered_def)

lemma clearEscalation_timeouts:
  assumes "timers_registered s" "timeouts (clearEscalation i s) h = Some t"
  shows "timer_alert t \<noteq> i \<and> timeouts s h = Some t"
proof (cases "escalationTimers s i")
  case None
  with assms show ?thesis
    by (auto simp: clearEscalation_def timers_registered_def)
next
  case (Some h')
  with assms(2) have "h \<noteq> h'" "timeouts s h = Some t"
    by (auto simp: clearEscalation_def split: if_splits)
  with assms(1) Some show ?thesis
    by (auto simp: timers_registered_def)
qed

lemma clearEscalation_registered:
  assumes "timers_registered s"
  shows "timers_registered (clearEscalation i s)"
  unfolding timers_registered_def
proof (intro allI impI)
  fix h t
  assume p: "timeouts (clearEscalation i s) h = Some t"
  from clearEscalation_timeouts [OF assms p] have "timer_alert t \<noteq> i" "timeouts s h = Some t"
    by simp_all
  with assms show "h < nextTimer (clearEscalation i s) \<and>
      escalationTimers (clearEscalation i s) (timer_alert t) = Some h"
    by (auto simp: timers_registered_def clearEscalation_def split: option.splits)
qed

lemma clearEscalation_none [simp]: "escalationTimers (clearEscalation i s) i = None"
  by (simp add: clearEscalation_def split: option.splits)

lemma setupEscalation_timeouts:
  assumes "timers_registered s" "timeouts (setupEscalation a now s) h = Some t"
  shows "(timer_alert t = alert_id a \<and> \<not> acknowledged a) \<or>
         (timer_alert t \<noteq> alert_id a \<and> timeouts s h = Some t)"
proof -
  let ?c = "clearEscalation (alert_id a) s"
  have c: "timeouts ?c h' = Some t' \<Longrightarrow> timer_alert t' \<noteq> alert_id a \<and> timeouts s h' = Some t'" for h' t'
    by (rule clearEscalation_timeouts [OF assms(1)])
  from assms(2) consider "timeouts ?c h = Some t"
    | "timer_alert t = alert_id a" "\<not> acknowledged a"
    by (auto simp: setupEscalation_def Let_def split: option.splits if_splits)
  then show ?thesis
    using c by cases auto
qed

lemma setupEscalation_registered:
  assumes "timers_registered s"
  shows "timers_registered (setupEscalation a now s)"
proof -
  let ?c = "clearEscalation (alert_id a) s"
  have r: "timers_registered ?c" by (rule clearEscalation_registered [OF assms])
  have n: "timeouts ?c h = Some t \<Longrightarrow> timer_alert t \<noteq> alert_id a" for h t
    using clearEscalation_timeouts [OF assms] by blast
  show ?thesis
    unfolding setupEscalation_def Let_def
    using r n
    by (auto simp: timers_registered_def split: option.splits if_splits) fastforce+
qed
lemma unack_update:
  assumes old: "timers_unacknowledged s"
    and upd: "alerts s' = AList.update i a (alerts s)"
    and t: "\<And>h t. timeouts s' h = Some t \<Longrightarrow>
             (timer_alert t = i \<and> \<not> acknowledged a) \<or> (timer_alert t \<noteq> i \<and> timeouts s h = Some t)"
  shows "timers_unacknowledged s'"
  unfolding timers_unacknowledged_def
proof (intro allI impI)
  fix h t
  assume "timeouts s' h = Some t"
  from t [OF this] show "\<exists>a. map_of (alerts s') (timer_alert t) = Some a \<and> \<not> acknowledged a"
  proof
    assume "timer_alert t = i \<and> \<not> acknowledged a"
    then show ?thesis by (simp add: upd update_conv')
  next
    assume "timer_alert t \<noteq> i \<and> timeouts s h = Some t"
    with old show ?thesis
      by (auto simp del: map_of_eq_Some_iff simp: timers_unacknowledged_def upd update_conv')
  qed
qed

lemma unack_delete:
  assumes old: "timers_unacknowledged s"
    and upd: "alerts s' = AList.delete i (alerts s)"
    and t: "\<And>h t. timeouts s' h = Some t \<Longrightarrow> timer_alert t \<noteq> i \<and> timeouts s h = Some t"
  shows "timers_unacknowledged s'"
  unfolding timers_unacknowledged_def
proof (intro allI impI)
  fix h t
  assume "timeouts s' h = Some t"
  from t [OF this] old show "\<exists>a. map_of (alerts s') (timer_alert t) = Some a \<and> \<not> acknowledged a"
    by (auto simp del: map_of_eq_Some_iff simp: timers_unacknowledged_def upd delete_conv')
qed

lemma unack_pending:
  assumes "timers_unacknowledged s" "timeouts s h = Some t" "map_of (alerts s) (timer_alert t) = Some a0"
  shows "\<not> acknowledged a0"
proof -
  from assms(1,2) obtain a where "map_of (alerts s) (timer_alert t) = Some a" "\<not> acknowledged a"
    unfolding timers_unacknowledged_def by blast
  with assms(3) show ?thesis by simp
qed

lemma timers_ok_acknowledge:
  assumes "timers_ok s"
  shows "timers_ok (snd (acknowledge i u nt now s))"
proof (cases "map_of (alerts s) i")
  case None
  with assms show ?thesis by (simp add: acknowledge_None)
next
  case (Some a0)
  then obtain a where a:
    "acknowledge i u nt now s =
       (Some a, emit ''alert:acknowledged'' a (clearEscalation i (s\<lparr>alerts := AList.update i a (alerts s)\<rparr>)))"
    by (rule acknowledge_Some)
  let ?s1 = "s\<lparr>alerts := AList.update i a (alerts s)\<rparr>"
  from assms have r: "timers_registered ?s1" by (simp add: timers_ok_def)
  have "timers_registered (snd (acknowledge i u nt now s))"
    by (simp add: a clearEscalation_registered [OF r])
  moreover have "timers_unacknowledged (snd (acknowledge i u nt now s))"
  proof (rule unack_update [where i = i and a = a and s = s])
    show "timers_unacknowledged s" using assms by (simp add: timers_ok_def)
    show "alerts (snd (acknowledge i u nt now s)) = AList.update i a (alerts s)" by (simp add: a)
    fix h t
    assume "timeouts (snd (acknowledge i u nt now s)) h = Some t"
    then have "timeouts (clearEscalation i ?s1) h = Some t" by (simp add: a)
    from clearEscalation_timeouts [OF r this]
    show "(timer_alert t = i \<and> \<not> acknowledged a) \<or> (timer_alert t \<noteq> i \<and> timeouts s h = Some t)"
      by simp
  qed
  ultimately show ?thesis by (simp add: timers_ok_def)
qed

lemma timers_ok_resolve:
  assumes "timers_ok s"
  shows "timers_ok (snd (resolve i u res now s))"
proof (cases "map_of (alerts s) i")
  case None
  with assms show ?thesis by (simp add: resolve_None)
next
  case (Some a0)
  then obtain a where a:
    "resolve i u res now s =
       (Some a, emit ''alert:resolved'' a
          ((addToHistory a (clearEscalation i (s\<lparr>alerts := AList.update i a (alerts s)\<rparr>)))
             \<lparr>alerts := AList.delete i (AList.update i a (alerts s))\<rparr>))"
    by (rule resolve_Some)
  let ?s1 = "s\<lparr>alerts := AList.update i a (alerts s)\<rparr>"
  from assms have r: "timers_registered ?s1" by (simp add: timers_ok_def)
  have "timers_registered (snd (resolve i u res now s))"
    by (simp add: a clearEscalation_registered [OF r])
  moreover have "timers_unacknowledged (snd (resolve i u res now s))"
  proof (rule unack_delete [where i = i and s = s])
    show "timers_unacknowledged s" using assms by (simp add: timers_ok_def)
    show "alerts (snd (resolve i u res now s)) = AList.delete i (alerts s)" by (rule alerts_resolve)
    fix h t
    assume "timeouts (snd (resolve i u res now s)) h = Some t"
    then have "timeouts (clearEscalation i ?s1) h = Some t" by (simp add: a)
    from clearEscalation_timeouts [OF r this]
    show "timer_alert t \<noteq> i \<and> timeouts s h = Some t"
      by simp
  qed
  ultimately show ?thesis by (simp add: timers_ok_def)
qed

lemma timers_ok_touch:
  assumes ok: "timers_ok s"
    and ack: "\<And>a0. map_of (alerts s) i = Some a0 \<Longrightarrow> \<not> acknowledged a0 \<Longrightarrow> \<not> acknowledged a"
    and s': "alerts s' = AList.update i a (alerts s)" "timeouts s' = timeouts s"
      "escalationTimers s' = escalationTimers s" "nextTimer s' = nextTimer s"
  shows "timers_ok s'"
proof -
  have "timers_registered s'"
    using ok by (simp add: timers_ok_def timers_registered_def s')
  moreover have "timers_unacknowledged s'"
  proof (rule unack_update [where i = i and a = a and s = s])
    show "timers_unacknowledged s" using ok by (simp add: timers_ok_def)
    show "alerts s' = AList.update i a (alerts s)" by (rule s')
    fix h t
    assume p: "timeouts s' h = Some t"
    then have p': "timeouts s h = Some t" by (simp add: s')
    show "(timer_alert t = i \<and> \<not> acknowledged a) \<or> (timer_alert t \<noteq> i \<and> timeouts s h = Some t)"
    proof (cases "timer_alert t = i")
      case True
      from ok have "timers_unacknowledged s" by (simp add: timers_ok_def)
      with p' obtain a0 where "map_of (alerts s) (timer_alert t) = Some a0" "\<not> acknowledged a0"
        unfolding timers_unacknowledged_def by blast
      with True ack have "\<not> acknowledged a" by simp
      with True show ?thesis by simp
    next
      case False
      with p' show ?thesis by simp
    qed
  qed
  ultimately show ?thesis by (simp add: timers_ok_def)
qed

lemma timers_ok_rearm:
  assumes ok: "timers_ok s" and i: "alert_id a = i"
  shows "timers_ok (setupEscalation a now (s\<lparr>alerts := AList.update i a (alerts s)\<rparr>))"
proof -
  let ?s1 = "s\<lparr>alerts := AList.update i a (alerts s)\<rparr>"
  from ok have r: "timers_registered ?s1" by (simp add: timers_ok_def)
  have "timers_registered (setupEscalation a now ?s1)"
    by (rule setupEscalation_registered [OF r])
  moreover have "timers_unacknowledged (setupEscalation a now ?s1)"
  proof (rule unack_update [where i = i and a = a and s = s])
    show "timers_unacknowledged s" using ok by (simp add: timers_ok_def)
    show "alerts (setupEscalation a now ?s1) = AList.update i a (alerts s)" by simp
    fix h t
    assume "timeouts (setupEscalation a now ?s1) h = Some t"
    from setupEscalation_timeouts [OF r this]
    show "(timer_alert t = i \<and> \<not> acknowledged a) \<or> (timer_alert t \<noteq> i \<and> timeouts s h = Some t)"
      by (simp add: i)
  qed
  ultimately show ?thesis by (simp add: timers_ok_def)
qed
lemma timers_ok_emit [simp]: "timers_ok (emit n a s) = timers_ok s"
  by (simp add: timers_ok_def timers_registered_def timers_unacknowledged_def)

lemma timers_ok_addNote:
  assumes "timers_ok s"
  shows "timers_ok (snd (addNote i u txt now s))"
proof (cases "map_of (alerts s) i")
  case None
  with assms show ?thesis by (simp add: addNote_None)
next
  case (Some a0)
  then obtain a where a:
    "addNote i u txt now s =
       (Some a, emit ''alert:updated'' a (s\<lparr>alerts := AList.update i a (alerts s)\<rparr>))"
    "alert_id a = alert_id a0" "priority a = priority a0" "priorityLevel a = priorityLevel a0"
    "resolved a = resolved a0" "acknowledged a = acknowledged a0"
    "escalationLevel a = escalationLevel a0" "createdAt a = createdAt a0"
    by (rule addNote_Some)
  show ?thesis
    by (rule timers_ok_touch [OF assms, where i = i and a = a]) (simp_all add: a Some)
qed

lemma timers_ok_assign:
  assumes "timers_ok s"
  shows "timers_ok (snd (assign i u now s))"
proof (cases "map_of (alerts s) i")
  case None
  with assms show ?thesis by (simp add: assign_None)
next
  case (Some a0)
  then obtain a where a:
    "assign i u now s =
       (Some a, emit ''alert:assigned'' a (s\<lparr>alerts := AList.update i a (alerts s)\<rparr>))"
    "alert_id a = alert_id a0" "priority a = priority a0" "priorityLevel a = priorityLevel a0"
    "resolved a = resolved a0" "acknowledged a = acknowledged a0"
    "escalationLevel a = escalationLevel a0" "createdAt a = createdAt a0"
    by (rule assign_Some)
  show ?thesis
    by (rule timers_ok_touch [OF assms, where i = i and a = a]) (simp_all add: a Some)
qed

lemma timers_ok_escalate:
  assumes "timers_ok s" "live_ok s"
  shows "timers_ok (snd (escalate i r now s))"
proof (cases "map_of (alerts s) i")
  case None
  with assms show ?thesis by (simp add: escalate_None)
next
  case (Some a0)
  from live_okD [OF assms(2) Some] have id0: "alert_id a0 = i" by simp
  show ?thesis
  proof (cases "indexOf escalation_order (priority a0) < int (length escalation_order) - 1")
    case False
    with Some assms show ?thesis by (simp add: escalate_top)
  next
    case True
    with Some obtain a where a:
      "escalate i r now s =
       (Some a, emit ''alert'' a (emit ''alert:escalated'' a
          (if timeout_of (priority a) \<noteq> None
           then setupEscalation a now (s\<lparr>alerts := AList.update i a (alerts s)\<rparr>)
           else s\<lparr>alerts := AList.update i a (alerts s)\<rparr>)))"
      "alert_id a = alert_id a0"
      "priority a = escalation_order ! nat (indexOf escalation_order (priority a0) + 1)"
      "priorityLevel a = level_or_3 (priority a)"
      "resolved a = resolved a0" "acknowledged a = acknowledged a0"
      "escalationLevel a = escalationLevel a0 + 1" "createdAt a = createdAt a0"
      by (rule escalate_Some)
    show ?thesis
    proof (cases "timeout_of (priority a) \<noteq> None")
      case True
      have "timers_ok (setupEscalation a now (s\<lparr>alerts := AList.update i a (alerts s)\<rparr>))"
        by (rule timers_ok_rearm [OF assms(1)]) (simp add: a id0)
      with True show ?thesis by (simp add: a(1))
    next
      case False
      have "timers_ok (s\<lparr>alerts := AList.update i a (alerts s)\<rparr>)"
        by (rule timers_ok_touch [OF assms(1), where i = i and a = a]) (simp_all add: a Some)
      with False show ?thesis by (simp add: a(1))
    qed
  qed
qed

lemma timers_ok_create:
  assumes "timers_ok s"
  shows "timers_ok (snd (create options uuid now s))"
proof (rule create_shape [of options uuid now s])
  fix a
  assume a: "create options uuid now s =
       (a, emit ''alert'' a (emit ''alert:created'' a
          (if or_default True (opt_autoEscalate options) \<and> timeout_of (priority a) \<noteq> None
           then setupEscalation a now (s\<lparr>alerts := AList.update uuid a (alerts s)\<rparr>)
           else s\<lparr>alerts := AList.update uuid a (alerts s)\<rparr>)))"
    and id: "alert_id a = uuid" and unack: "\<not> acknowledged a"
  show "timers_ok (snd (create options uuid now s))"
  proof (cases "or_default True (opt_autoEscalate options) \<and> timeout_of (priority a) \<noteq> None")
    case True
    have "timers_ok (setupEscalation a now (s\<lparr>alerts := AList.update uuid a (alerts s)\<rparr>))"
      by (rule timers_ok_rearm [OF assms id])
    with True show ?thesis by (simp add: a)
  next
    case False
    have "timers_ok (s\<lparr>alerts := AList.update uuid a (alerts s)\<rparr>)"
      by (rule timers_ok_touch [OF assms, where i = uuid and a = a]) (simp_all add: unack)
    with False show ?thesis by (auto simp: a)
  qed
qed

lemma timers_ok_drop:
  assumes "timers_ok s"
  shows "timers_ok (s\<lparr>timeouts := (timeouts s)(h := None)\<rparr>)"
  using assms
  by (auto simp: timers_ok_def timers_registered_def timers_unacknowledged_def)

lemma live_ok_timeouts [simp]: "live_ok (s\<lparr>timeouts := x\<rparr>) = live_ok s"
  by (simp add: live_ok_def)

lemma timers_ok_fire:
  assumes "timers_ok s" "live_ok s"
  shows "timers_ok (fire h now s)"
  using assms
  by (simp add: fire_def timers_ok_escalate timers_ok_drop split: option.splits)

lemma timers_ok_exec: "timers_ok s \<Longrightarrow> live_ok s \<Longrightarrow> timers_ok (exec e s)"
  by (cases e)
     (simp_all add: timers_ok_create timers_ok_acknowledge timers_ok_resolve timers_ok_escalate
        timers_ok_addNote timers_ok_assign timers_ok_fire)
lemma alerts_shape_exec:
  "alerts (exec e s) = alerts s \<or> (\<exists>i a. alerts (exec e s) = AList.update i a (alerts s)) \<or>
   (\<exists>i u res now. e = Resolve i u res now \<and> alerts (exec e s) = AList.delete i (alerts s))"
proof -
  have esc: "alerts (snd (escalate i r now s')) = alerts s' \<or>
      (\<exists>a. alerts (snd (escalate i r now s')) = AList.update i a (alerts s'))" for i r now s'
  proof (cases "map_of (alerts s') i")
    case None
    then show ?thesis by (simp add: escalate_None)
  next
    case (Some a0)
    show ?thesis
    proof (cases "indexOf escalation_order (priority a0) < int (length escalation_order) - 1")
      case False
      with Some show ?thesis by (simp add: escalate_top)
    next
      case True
      with Some obtain a where
        "escalate i r now s' =
         (Some a, emit ''alert'' a (emit ''alert:escalated'' a
            (if timeout_of (priority a) \<noteq> None
             then setupEscalation a now (s'\<lparr>alerts := AList.update i a (alerts s')\<rparr>)
             else s'\<lparr>alerts := AList.update i a (alerts s')\<rparr>)))"
        by (rule escalate_Some)
      then have "alerts (snd (escalate i r now s')) = AList.update i a (alerts s')"
        by (rule alerts_escalate_Some)
      then show ?thesis by blast
    qed
  qed
  show ?thesis
  proof (cases e)
    case (Create options uuid now)
    then show ?thesis using alerts_create [of options uuid now s] by auto
  next
    case (Acknowledge i u nt now)
    show ?thesis
    proof (cases "map_of (alerts s) i")
      case None
      then show ?thesis by (simp add: Acknowledge acknowledge_None)
    next
      case (Some a0)
      then obtain a where
        "acknowledge i u nt now s =
           (Some a, emit ''alert:acknowledged'' a (clearEscalation i (s\<lparr>alerts := AList.update i a (alerts s)\<rparr>)))"
        by (rule acknowledge_Some)
      then have "alerts (exec e s) = AList.update i a (alerts s)" by (simp add: Acknowledge)
      then show ?thesis by blast
    qed
  next
    case (Resolve i u res now)
    then show ?thesis using alerts_resolve [of i u res now s] by auto
  next
    case (Escalate i r now)
    then show ?thesis using esc [of i r now s] by auto
  next
    case (AddNote i u tx now)
    show ?thesis
    proof (cases "map_of (alerts s) i")
      case None
      then show ?thesis by (simp add: AddNote addNote_None)
    next
      case (Some a0)
      then obtain a where
        "addNote i u tx now s =
           (Some a, emit ''alert:updated'' a (s\<lparr>alerts := AList.update i a (alerts s)\<rparr>))"
        by (rule addNote_Some)
      then have "alerts (exec e s) = AList.update i a (alerts s)" by (simp add: AddNote)
      then show ?thesis by blast
    qed
  next
    case (Assign i u now)
    show ?thesis
    proof (cases "map_of (alerts s) i")
      case None
      then show ?thesis by (simp add: Assign assign_None)
    next
      case (Some a0)
      then obtain a where
        "assign i u now s =
           (Some a, emit ''alert:assigned'' a (s\<lparr>alerts := AList.update i a (alerts s)\<rparr>))"
        by (rule assign_Some)
      then have "alerts (exec e s) = AList.update i a (alerts s)" by (simp add: Assign)
      then show ?thesis by blast
    qed
  next
    case (TimerFires h now)
    show ?thesis
    proof (cases "timeouts s h")
      case None
      then show ?thesis by (simp add: TimerFires fire_def)
    next
      case (Some t)
      show ?thesis
        using esc [of "timer_alert t" None now "s\<lparr>timeouts := (timeouts s)(h := None)\<rparr>"]
        by (auto simp: TimerFires fire_def Some)
    qed
  qed
qed

lemma distinct_exec:
  "distinct (map fst (alerts s)) \<Longrightarrow> distinct (map fst (alerts (exec e s)))"
  using alerts_shape_exec [of e s] by (auto simp: distinct_update distinct_delete)

lemma live_ok_step:
  assumes ok: "live_ok s" and st: "alerts_step {} s s'" and d: "distinct (map fst (alerts s'))"
  shows "live_ok s'"
  unfolding live_ok_def
proof (intro conjI allI impI)
  show "distinct (map fst (alerts s'))" by (rule d)
next
  fix k a'
  assume "map_of (alerts s') k = Some a'"
  with st obtain a where a: "map_of (alerts s) k = Some a" "evolves a a'"
    unfolding alerts_step_def by blast
  from live_okD [OF ok a(1)] a(2)
  show "alert_id a' = k" "\<not> resolved a'" "priorityLevel a' = level_or_3 (priority a')"
    by (simp_all add: evolves_def)
qed

lemma live_ok_create:
  assumes ok: "live_ok s"
  shows "live_ok (snd (create options uuid now s))"
proof (rule create_shape [of options uuid now s])
  fix a
  assume "alert_id a = uuid" "priorityLevel a = level_or_3 (priority a)" "\<not> resolved a"
    and a: "create options uuid now s =
       (a, emit ''alert'' a (emit ''alert:created'' a
          (if or_default True (opt_autoEscalate options) \<and> timeout_of (priority a) \<noteq> None
           then setupEscalation a now (s\<lparr>alerts := AList.update uuid a (alerts s)\<rparr>)
           else s\<lparr>alerts := AList.update uuid a (alerts s)\<rparr>)))"
  then show "live_ok (snd (create options uuid now s))"
    using alerts_create [of options uuid now s]
    by (intro live_okI [OF ok, where k = uuid and a = a]) (simp_all add: a)
qed

lemma live_ok_exec:
  assumes ok: "live_ok s"
  shows "live_ok (exec e s)"
proof (cases "created_ids [e] = []")
  case True
  with step_exec [of e s] have "alerts_step {} s (exec e s)" by simp
  moreover from ok have "distinct (map fst (alerts (exec e s)))"
    by (intro distinct_exec) (simp add: live_ok_def)
  ultimately show ?thesis by (rule live_ok_step [OF ok])
next
  case False
  then obtain options uuid now where "e = Create options uuid now"
    by (cases e) simp_all
  with ok show ?thesis by (simp add: live_ok_create)
qed

lemma live_ok_new [simp]: "live_ok new_AlertSystem"
  and timers_ok_new [simp]: "timers_ok new_AlertSystem"
  and history_ok_new [simp]: "history_ok new_AlertSystem"
  by (simp_all add: live_ok_def timers_ok_def timers_registered_def timers_unacknowledged_def
      history_ok_def new_AlertSystem_def)

lemma invariants_run:
  "live_ok s \<Longrightarrow> timers_ok s \<Longrightarrow> live_ok (run es s) \<and> timers_ok (run es s)"
  by (induction es arbitrary: s) (simp_all add: live_ok_exec timers_ok_exec)

lemma history_escalate [simp]: "history (snd (escalate i r now s)) = history s"
proof (cases "map_of (alerts s) i")
  case None
  then show ?thesis by (simp add: escalate_None)
next
  case (Some a0)
  show ?thesis
  proof (cases "indexOf escalation_order (priority a0) < int (length escalation_order) - 1")
    case False
    with Some show ?thesis by (simp add: escalate_top)
  next
    case True
    with Some obtain a where
      "escalate i r now s =
       (Some a, emit ''alert'' a (emit ''alert:escalated'' a
          (if timeout_of (priority a) \<noteq> None
           then setupEscalation a now (s\<lparr>alerts := AList.update i a (alerts s)\<rparr>)
           else s\<lparr>alerts := AList.update i a (alerts s)\<rparr>)))"
      by (rule escalate_Some)
    then show ?thesis by simp
  qed
qed

lemma history_acknowledge [simp]: "history (snd (acknowledge i u nt now s)) = history s"
proof (cases "map_of (alerts s) i")
  case None
  then show ?thesis by (simp add: acknowledge_None)
next
  case (Some a0)
  then obtain a where
    "acknowledge i u nt now s =
       (Some a, emit ''alert:acknowledged'' a (clearEscalation i (s\<lparr>alerts := AList.update i a (alerts s)\<rparr>)))"
    by (rule acknowledge_Some)
  then show ?thesis by simp
qed

lemma history_addNote [simp]: "history (snd (addNote i u tx now s)) = history s"
proof (cases "map_of (alerts s) i")
  case None
  then show ?thesis by (simp add: addNote_None)
next
  case (Some a0)
  then obtain a where
    "addNote i u tx now s =
       (Some a, emit ''alert:updated'' a (s\<lparr>alerts := AList.update i a (alerts s)\<rparr>))"
    by (rule addNote_Some)
  then show ?thesis by simp
qed

lemma history_assign [simp]: "history (snd (assign i u now s)) = history s"
proof (cases "map_of (alerts s) i")
  case None
  then show ?thesis by (simp add: assign_None)
next
  case (Some a0)
  then obtain a where
    "assign i u now s =
       (Some a, emit ''alert:assigned'' a (s\<lparr>alerts := AList.update i a (alerts s)\<rparr>))"
    by (rule assign_Some)
  then show ?thesis by simp
qed

lemma history_create [simp]: "history (snd (create options uuid now s)) = history s"
  by (rule create_shape [of options uuid now s]) simp

lemma history_fire [simp]: "history (fire h now s) = history s"
  by (simp add: fire_def split: option.splits)

lemma history_addToHistory: "history (addToHistory a s) = take maxHistory (a # history s)"
  by (simp add: addToHistory_def Let_def)

lemma history_resolve_Some:
  assumes "map_of (alerts s) i = Some a0"
  obtains a where "fst (resolve i u res now s) = Some a"
    "history (snd (resolve i u res now s)) = take maxHistory (a # history s)"
    "alert_id a = alert_id a0" "resolved a"
proof -
  from assms obtain a where a:
    "resolve i u res now s =
       (Some a, emit ''alert:resolved'' a
          ((addToHistory a (clearEscalation i (s\<lparr>alerts := AList.update i a (alerts s)\<rparr>)))
             \<lparr>alerts := AList.delete i (AList.update i a (alerts s))\<rparr>))"
    "alert_id a = alert_id a0" "priority a = priority a0" "priorityLevel a = priorityLevel a0"
    "resolved a"
    by (rule resolve_Some)
  show thesis
    by (rule that [of a]) (simp_all add: a history_addToHistory)
qed

lemma history_exec:
  "history (exec e s) = history s \<or>
   (\<exists>i u res now a0 a. e = Resolve i u res now \<and> map_of (alerts s) i = Some a0 \<and>
      alert_id a = alert_id a0 \<and> resolved a \<and>
      history (exec e s) = take maxHistory (a # history s))"
proof (cases e)
  case (Resolve i u res now)
  show ?thesis
  proof (cases "map_of (alerts s) i")
    case None
    then show ?thesis by (simp add: Resolve resolve_None)
  next
    case (Some a0)
    then obtain a where "history (snd (resolve i u res now s)) = take maxHistory (a # history s)"
      "alert_id a = alert_id a0" "resolved a"
      by (rule history_resolve_Some)
    with Some show ?thesis by (auto simp: Resolve)
  qed
qed simp_all

lemma history_ok_exec:
  assumes "history_ok s"
  shows "history_ok (exec e s)"
proof -
  from history_exec [of e s] show ?thesis
  proof
    assume "history (exec e s) = history s"
    with assms show ?thesis by (simp add: history_ok_def)
  next
    assume "\<exists>i u res now a0 a. e = Resolve i u res now \<and> map_of (alerts s) i = Some a0 \<and>
      alert_id a = alert_id a0 \<and> resolved a \<and>
      history (exec e s) = take maxHistory (a # history s)"
    then obtain a where a: "resolved a" and h: "history (exec e s) = take maxHistory (a # history s)"
      by blast
    have "set (take maxHistory (a # history s)) \<subseteq> insert a (set (history s))"
      using set_take_subset [of maxHistory "a # history s"] by simp
    with assms a show ?thesis
      unfolding history_ok_def h by auto
  qed
qed

lemma live_ids_exec:
  "live_ids (exec e s) \<subseteq> live_ids s \<union> set (created_ids [e])"
  using step_exec [of e s]
  by (fastforce simp del: map_of_eq_Some_iff simp: alerts_step_def live_ids_dom dom_def)

lemma live_ids_run:
  "live_ids (run es s) \<subseteq> live_ids s \<union> set (created_ids es)"
  using step_run [of es s]
  by (fastforce simp del: map_of_eq_Some_iff simp: alerts_step_def live_ids_dom dom_def)

lemma history_ids_exec:
  assumes "live_ok s"
  shows "history_ids (exec e s) \<subseteq> history_ids s \<union> (live_ids s - live_ids (exec e s))"
proof -
  from history_exec [of e s] show ?thesis
  proof
    assume "history (exec e s) = history s"
    then show ?thesis by (simp add: history_ids_def)
  next
    assume "\<exists>i u res now a0 a. e = Resolve i u res now \<and> map_of (alerts s) i = Some a0 \<and>
      alert_id a = alert_id a0 \<and> resolved a \<and>
      history (exec e s) = take maxHistory (a # history s)"
    then obtain i u res now a0 a where e: "e = Resolve i u res now"
      and a0: "map_of (alerts s) i = Some a0" and a: "alert_id a = alert_id a0"
      and h: "history (exec e s) = take maxHistory (a # history s)"
      by blast
    from live_okD [OF assms a0] a have "alert_id a = i" by simp
    moreover from a0 have "i \<in> live_ids s" by (auto simp: live_ids_dom)
    moreover have "i \<notin> live_ids (exec e s)"
      by (simp add: e live_ids_def alerts_resolve delete_notin_dom)
    moreover have "set (take maxHistory (a # history s)) \<subseteq> insert a (set (history s))"
      using set_take_subset [of maxHistory "a # history s"] by simp
    ultimately show ?thesis
      by (auto simp: history_ids_def h)
  qed
qed

lemma created_ids_append: "created_ids (xs @ ys) = created_ids xs @ created_ids ys"
  by (induction xs rule: created_ids.induct) simp_all

lemma run_append: "run (xs @ ys) s = run ys (run xs s)"
  by (induction xs arbitrary: s) simp_all

lemma history_ok_run: "history_ok s \<Longrightarrow> history_ok (run es s)"
  by (induction es arbitrary: s) (simp_all add: history_ok_exec)

lemma disjoint_exec:
  assumes ok: "live_ok s" and d: "live_ids s \<inter> history_ids s = {}"
    and fresh: "set (created_ids [e]) \<inter> history_ids s = {}"
  shows "live_ids (exec e s) \<inter> history_ids (exec e s) = {}"
  using live_ids_exec [of e s] history_ids_exec [OF ok, of e] d fresh by blast

lemma disjoint_run:
  assumes "live_ok s" "live_ids s \<inter> history_ids s = {}" "distinct (created_ids es)"
    "set (created_ids es) \<inter> (live_ids s \<union> history_ids s) = {}"
  shows "live_ids (run es s) \<inter> history_ids (run es s) = {}"
  using assms
proof (induction es arbitrary: s)
  case Nil
  then show ?case by simp
next
  case (Cons e es)
  have c: "created_ids (e # es) = created_ids [e] @ created_ids es"
    using created_ids_append [of "[e]" es] by simp
  have ok1: "live_ok (exec e s)" by (rule live_ok_exec [OF Cons.prems(1)])
  have d1: "live_ids (exec e s) \<inter> history_ids (exec e s) = {}"
    using Cons.prems(4) by (intro disjoint_exec Cons.prems) (auto simp: c)
  have dist: "distinct (created_ids es)" using Cons.prems(3) by (simp add: c)
  have "set (created_ids es) \<inter> (live_ids (exec e s) \<union> history_ids (exec e s)) = {}"
    using live_ids_exec [of e s] history_ids_exec [OF Cons.prems(1), of e] Cons.prems(3,4)
    unfolding c by auto
  from Cons.IH [OF ok1 d1 dist this] show ?case by simp
qed

lemma live_ids_new [simp]: "live_ids new_AlertSystem = {}"
  and history_ids_new [simp]: "history_ids new_AlertSystem = {}"
  by (simp_all add: live_ids_def history_ids_def new_AlertSystem_def)

lemma getActive_ids:
  assumes "live_ok s"
  shows "alert_id ` set (getActive f s) \<subseteq> live_ids s"
proof
  fix x
  assume "x \<in> alert_id ` set (getActive f s)"
  then obtain a where a: "a \<in> set (getActive f s)" "x = alert_id a" by blast
  then have "a \<in> snd ` set (alerts s)" by (auto simp: getActive_filter)
  then obtain k where k: "(k, a) \<in> set (alerts s)" by auto
  with assms have "map_of (alerts s) k = Some a" by (simp add: live_ok_def)
  from live_okD [OF assms this] k a show "x \<in> live_ids s"
    by (force simp: live_ids_def)
qed

lemma not_live_None: "i \<notin> live_ids s \<Longrightarrow> map_of (alerts s) i = None"
  by (simp add: live_ids_def map_of_eq_None_iff)

lemma take_maxHistory: "take maxHistory (a # h) = a # take (maxHistory - 1) h"
  by (simp add: maxHistory_def)

lemma created_ids_Cons: "set (created_ids (e # es)) = set (created_ids [e]) \<union> set (created_ids es)"
  using created_ids_append [of "[e]" es] by simp

lemma live_ids_update_present:
  assumes "map_of (alerts s) i = Some a0" "alerts s' = AList.update i a (alerts s)"
  shows "live_ids s' = live_ids s"
proof -
  from assms(1) have "i \<in> fst ` set (alerts s)"
    by (metis map_of_eq_None_iff option.distinct(1))
  then show ?thesis
    unfolding live_ids_def assms(2) dom_update by blast
qed

lemma live_ids_acknowledge: "live_ids (snd (acknowledge i u nt now s)) = live_ids s"
proof (cases "map_of (alerts s) i")
  case None
  then show ?thesis by (simp add: acknowledge_None)
next
  case (Some a0)
  then obtain a where
    "acknowledge i u nt now s =
       (Some a, emit ''alert:acknowledged'' a (clearEscalation i (s\<lparr>alerts := AList.update i a (alerts s)\<rparr>)))"
    by (rule acknowledge_Some)
  then have "alerts (snd (acknowledge i u nt now s)) = AList.update i a (alerts s)" by simp
  with Some show ?thesis by (rule live_ids_update_present)
qed

lemma live_ids_addNote: "live_ids (snd (addNote i u tx now s)) = live_ids s"
proof (cases "map_of (alerts s) i")
  case None
  then show ?thesis by (simp add: addNote_None)
next
  case (Some a0)
  then obtain a where
    "addNote i u tx now s =
       (Some a, emit ''alert:updated'' a (s\<lparr>alerts := AList.update i a (alerts s)\<rparr>))"
    by (rule addNote_Some)
  then have "alerts (snd (addNote i u tx now s)) = AList.update i a (alerts s)" by simp
  with Some show ?thesis by (rule live_ids_update_present)
qed

lemma live_ids_assign: "live_ids (snd (assign i u now s)) = live_ids s"
proof (cases "map_of (alerts s) i")
  case None
  then show ?thesis by (simp add: assign_None)
next
  case (Some a0)
  then obtain a where
    "assign i u now s =
       (Some a, emit ''alert:assigned'' a (s\<lparr>alerts := AList.update i a (alerts s)\<rparr>))"
    by (rule assign_Some)
  then have "alerts (snd (assign i u now s)) = AList.update i a (alerts s)" by simp
  with Some show ?thesis by (rule live_ids_update_present)
qed

lemma live_ids_escalate: "live_ids (snd (escalate i r now s)) = live_ids s"
proof (cases "map_of (alerts s) i")
  case None
  then show ?thesis by (simp add: escalate_None)
next
  case (Some a0)
  show ?thesis
  proof (cases "indexOf escalation_order (priority a0) < int (length escalation_order) - 1")
    case False
    with Some show ?thesis by (simp add: escalate_top)
  next
    case True
    with Some obtain a where
      "escalate i r now s =
       (Some a, emit ''alert'' a (emit ''alert:escalated'' a
          (if timeout_of (priority a) \<noteq> None
           then setupEscalation a now (s\<lparr>alerts := AList.update i a (alerts s)\<rparr>)
           else s\<lparr>alerts := AList.update i a (alerts s)\<rparr>)))"
      by (rule escalate_Some)
    then have "alerts (snd (escalate i r now s)) = AList.update i a (alerts s)"
      by (rule alerts_escalate_Some)
    with Some show ?thesis by (rule live_ids_update_present)
  qed
qed

lemma live_ids_fire: "live_ids (fire h now s) = live_ids s"
proof (cases "timeouts s h")
  case None
  then show ?thesis by (simp add: fire_def)
next
  case (Some t)
  have "live_ids (snd (escalate (timer_alert t) None now (s\<lparr>timeouts := (timeouts s)(h := None)\<rparr>)))
      = live_ids (s\<lparr>timeouts := (timeouts s)(h := None)\<rparr>)"
    by (rule live_ids_escalate)
  then show ?thesis by (simp add: fire_def Some live_ids_def)
qed

lemma live_ids_create: "live_ids (snd (create options uuid now s)) = insert uuid (live_ids s)"
  unfolding live_ids_def alerts_create dom_update by simp

lemma live_ids_resolve: "live_ids (snd (resolve i u res now s)) = live_ids s - {i}"
  unfolding live_ids_def alerts_resolve by (auto simp: AList.delete_eq)

lemma take_append_take: "take n (xs @ take n ys) = take n (xs @ ys)"
  by simp

lemma resolutions_Cons: "resolutions (e # es) s = resolutions es (exec e s) @ resolutions [e] s"
  by (cases e) simp_all

lemma resolutions_append: "resolutions (es @ es') s = resolutions es' (run es s) @ resolutions es s"
proof (induction es arbitrary: s)
  case Nil
  show ?case by simp
next
  case (Cons e es)
  have "resolutions ((e # es) @ es') s = resolutions (es @ es') (exec e s) @ resolutions [e] s"
    using resolutions_Cons [of e "es @ es'" s] by simp
  also have "\<dots> = resolutions es' (run es (exec e s)) @ resolutions es (exec e s) @ resolutions [e] s"
    by (simp add: Cons.IH)
  also have "\<dots> = resolutions es' (run (e # es) s) @ resolutions (e # es) s"
    using resolutions_Cons [of e es s] by simp
  finally show ?case .
qed

lemma history_step:
  "map alert_id (history (exec e s)) = take maxHistory (resolutions [e] s @ map alert_id (history s)) \<or>
   history (exec e s) = history s \<and> resolutions [e] s = []"
proof (cases e)
  case (Resolve i u res now)
  show ?thesis
  proof (cases "map_of (alerts s) i")
    case None
    then show ?thesis by (simp add: Resolve resolve_None)
  next
    case (Some a0)
    then obtain a where a: "fst (resolve i u res now s) = Some a"
      "history (snd (resolve i u res now s)) = take maxHistory (a # history s)"
      by (rule history_resolve_Some)
    have "map alert_id (history (exec e s)) = take maxHistory (map alert_id (a # history s))"
      unfolding Resolve exec.simps a(2) by (rule take_map [symmetric])
    moreover have "resolutions [e] s = [alert_id a]" by (simp add: Resolve a(1))
    ultimately show ?thesis by simp
  qed
qed simp_all

lemma history_resolutions:
  assumes "history_ok s"
  shows "map alert_id (history (run es s)) = take maxHistory (resolutions es s @ map alert_id (history s))"
  using assms
proof (induction es arbitrary: s)
  case Nil
  then show ?case by (simp add: history_ok_def)
next
  case (Cons e es)
  have ok1: "history_ok (exec e s)" by (rule history_ok_exec [OF Cons.prems])
  have "map alert_id (history (run (e # es) s))
      = take maxHistory (resolutions es (exec e s) @ map alert_id (history (exec e s)))"
    using Cons.IH [OF ok1] by simp
  also have "\<dots> = take maxHistory (resolutions es (exec e s) @ resolutions [e] s @ map alert_id (history s))"
    using history_step [of e s]
  proof
    assume "map alert_id (history (exec e s)) = take maxHistory (resolutions [e] s @ map alert_id (history s))"
    then show ?thesis by (simp only: take_append_take)
  next
    assume "history (exec e s) = history s \<and> resolutions [e] s = []"
    then show ?thesis by simp
  qed
  also have "\<dots> = take maxHistory (resolutions (e # es) s @ map alert_id (history s))"
    using resolutions_Cons [of e es s] by simp
  finally show ?case .
qed

lemma kept_exec:
  assumes ok: "live_ok s"
  shows "live_ids s \<union> set (created_ids [e]) \<subseteq> live_ids (exec e s) \<union> set (resolutions [e] s)"
proof (cases e)
  case (Resolve i u res now)
  show ?thesis
  proof (cases "map_of (alerts s) i")
    case None
    then show ?thesis by (simp add: Resolve resolve_None)
  next
    case (Some a0)
    then obtain a where a: "fst (resolve i u res now s) = Some a" "alert_id a = alert_id a0"
      by (rule history_resolve_Some)
    from live_okD [OF ok Some] a(2) have "alert_id a = i" by simp
    with a(1) have "resolutions [e] s = [i]" by (simp add: Resolve)
    then show ?thesis by (auto simp: Resolve live_ids_resolve)
  qed
qed (auto simp: live_ids_create live_ids_acknowledge live_ids_escalate live_ids_addNote
      live_ids_assign live_ids_fire)

lemma kept_run:
  assumes "live_ok s"
  shows "live_ids s \<union> set (created_ids es) \<subseteq> live_ids (run es s) \<union> set (resolutions es s)"
  using assms
proof (induction es arbitrary: s)
  case Nil
  show ?case by simp
next
  case (Cons e es)
  have ok1: "live_ok (exec e s)" by (rule live_ok_exec [OF Cons.prems])
  from kept_exec [OF Cons.prems, of e] Cons.IH [OF ok1]
  show ?case unfolding created_ids_Cons [of e es] resolutions_Cons [of e es s] by auto
qed

lemma tracked_run:
  "set (created_ids es) \<subseteq>
     live_ids (run es new_AlertSystem) \<union> history_ids (run es new_AlertSystem) \<union>
     set (drop maxHistory (resolutions es new_AlertSystem))"
proof -
  have h: "map alert_id (history (run es new_AlertSystem)) = take maxHistory (resolutions es new_AlertSystem)"
    using history_resolutions [OF history_ok_new, of es] by (simp add: new_AlertSystem_def)
  have "history_ids (run es new_AlertSystem) = set (map alert_id (history (run es new_AlertSystem)))"
    by (simp add: history_ids_def)
  then have "history_ids (run es new_AlertSystem) = set (take maxHistory (resolutions es new_AlertSystem))"
    by (simp only: h)
  moreover have "set (resolutions es new_AlertSystem)
     = set (take maxHistory (resolutions es new_AlertSystem)) \<union> set (drop maxHistory (resolutions es new_AlertSystem))"
    using set_append [of "take maxHistory (resolutions es new_AlertSystem)" "drop maxHistory (resolutions es new_AlertSystem)"]
    by (simp only: append_take_drop_id)
  ultimately show ?thesis using kept_run [OF live_ok_new, of es] by auto
qed

subsection \<open>Resolution is final\<close>

text \<open>
  Claim C3, as amended. In a state that calls of the interface and timers have built
  from the empty system, with \<^verbatim>\<open>uuidv4()\<close> never returning an identifier twice, let
  \<open>i\<close> be the id of a live alert. Then \<^verbatim>\<open>resolve\<close> returns the alert, now flagged
  resolved, and puts it at the front of the history; \<open>i\<close> is no longer in the live set
  and, whatever happens afterwards, never is again, nor is it among the alerts
  \<^verbatim>\<open>getActive\<close> returns; \<^verbatim>\<open>acknowledge\<close> and \<^verbatim>\<open>escalate\<close> on \<open>i\<close> return null and
  leave the state as it is. No identifier is in the live set and in the history at
  once: the live set holds unresolved alerts only and the history resolved alerts only.
  The history holds the \<open>maxHistory\<close> alerts resolved last, the latest first, and
  every alert created so far is in the live set, or in the history, or is one of the
  resolved alerts that have been dropped from the history since: one resolved before
  the \<open>maxHistory\<close> resolved last.
\<close>

theorem resolve_moves_alert_to_history:
  assumes fresh: "distinct (created_ids (es @ es'))"
    and live: "map_of (alerts (run es new_AlertSystem)) i = Some a0"
  shows "let s = run es new_AlertSystem; (r, s') = resolve i u res now s; s'' = run es' s' in
     (\<exists>a. r = Some a \<and> alert_id a = i \<and> resolved a \<and>
          history s' = a # take (maxHistory - 1) (history s)) \<and>
     i \<notin> live_ids s' \<and> i \<in> history_ids s' \<and>
     i \<notin> live_ids s'' \<and> (\<forall>f. i \<notin> alert_id ` set (getActive f s'')) \<and>
     acknowledge i u1 n1 t1 s'' = (None, s'') \<and> escalate i r2 t2 s'' = (None, s'') \<and>
     live_ids s \<inter> history_ids s = {} \<and> live_ids s'' \<inter> history_ids s'' = {} \<and>
     (\<forall>a \<in> snd ` set (alerts s''). \<not> resolved a) \<and> (\<forall>a \<in> set (history s''). resolved a) \<and>
     map alert_id (history s'')
       = take maxHistory (resolutions (es @ [Resolve i u res now] @ es') new_AlertSystem) \<and>
     set (created_ids (es @ es')) \<subseteq> live_ids s'' \<union> history_ids s'' \<union>
       set (drop maxHistory (resolutions (es @ [Resolve i u res now] @ es') new_AlertSystem))"
proof -
  define s where "s = run es new_AlertSystem"
  define s' where "s' = snd (resolve i u res now s)"
  define s'' where "s'' = run es' s'"
  have ok: "live_ok s" unfolding s_def using invariants_run [of new_AlertSystem es] by simp
  have s'_exec: "s' = run [Resolve i u res now] s" by (simp add: s'_def)
  have s''_run: "s'' = run (es @ [Resolve i u res now] @ es') new_AlertSystem"
    by (simp add: s''_def s'_def s_def run_append)
  have ids: "created_ids (es @ [Resolve i u res now] @ es') = created_ids (es @ es')"
    by (simp add: created_ids_append)
  have ok'': "live_ok s''" unfolding s''_run using invariants_run [of new_AlertSystem] by simp
  have hok'': "history_ok s''" unfolding s''_run by (rule history_ok_run) simp
  from live have live': "map_of (alerts s) i = Some a0" by (simp add: s_def)
  from live_okD [OF ok live'] have id0: "alert_id a0 = i" by simp
  obtain a where a: "fst (resolve i u res now s) = Some a"
    "history (snd (resolve i u res now s)) = take maxHistory (a # history s)"
    "alert_id a = alert_id a0" "resolved a"
    using live' by (rule history_resolve_Some)
  have 1: "\<exists>a. fst (resolve i u res now s) = Some a \<and> alert_id a = i \<and> resolved a \<and>
          history s' = a # take (maxHistory - 1) (history s)"
    using a id0 by (auto simp: s'_def take_maxHistory)
  have 2: "i \<notin> live_ids s'"
    by (simp add: s'_def live_ids_def alerts_resolve delete_notin_dom)
  have 3: "i \<in> history_ids s'"
    using a id0 by (force simp: s'_def history_ids_def take_maxHistory)
  have "i \<in> live_ids s" using live' by (auto simp: live_ids_dom)
  with live_ids_run [of es new_AlertSystem] have "i \<in> set (created_ids es)"
    by (auto simp: s_def)
  with fresh have "i \<notin> set (created_ids es')" by (auto simp: created_ids_append)
  with 2 live_ids_run [of es' s'] have 4: "i \<notin> live_ids s''" by (auto simp: s''_def)
  with getActive_ids [OF ok''] have 5: "\<forall>f. i \<notin> alert_id ` set (getActive f s'')" by blast
  from 4 have none: "map_of (alerts s'') i = None" by (rule not_live_None)
  have 6: "acknowledge i u1 n1 t1 s'' = (None, s'')" "escalate i r2 t2 s'' = (None, s'')"
    using none by (simp_all add: acknowledge_None escalate_None)
  have 7: "live_ids s \<inter> history_ids s = {}"
    unfolding s_def using fresh by (intro disjoint_run) (simp_all add: created_ids_append)
  have 8: "live_ids s'' \<inter> history_ids s'' = {}"
    unfolding s''_run using fresh ids by (intro disjoint_run) simp_all
  have 9: "\<forall>a \<in> snd ` set (alerts s''). \<not> resolved a"
  proof
    fix b
    assume "b \<in> snd ` set (alerts s'')"
    then obtain k where "(k, b) \<in> set (alerts s'')" by auto
    with ok'' have "map_of (alerts s'') k = Some b" by (simp add: live_ok_def)
    from live_okD [OF ok'' this] show "\<not> resolved b" by simp
  qed
  have 10: "\<forall>a \<in> set (history s''). resolved a" using hok'' by (simp add: history_ok_def)
  have 11: "map alert_id (history s'')
       = take maxHistory (resolutions (es @ [Resolve i u res now] @ es') new_AlertSystem)"
    unfolding s''_run using history_resolutions [OF history_ok_new, of "es @ [Resolve i u res now] @ es'"]
    by (simp add: new_AlertSystem_def)
  have 12: "set (created_ids (es @ es')) \<subseteq> live_ids s'' \<union> history_ids s'' \<union>
       set (drop maxHistory (resolutions (es @ [Resolve i u res now] @ es') new_AlertSystem))"
    using tracked_run [of "es @ [Resolve i u res now] @ es'"] unfolding ids s''_run .
  have split: "resolve i u res now s = (fst (resolve i u res now s), s')" by (simp add: s'_def)
  show ?thesis
    unfolding Let_def s_def [symmetric]
    apply (subst split)
    unfolding prod.case s''_def [symmetric]
    using 1 2 3 4 5 6 7 8 9 10 11 12 by blast
qed

theorem resolve_moves_alert_to_history_witness:
  "distinct (created_ids ([Create plain_options ''a'' 1] @ [Create plain_options ''b'' 5])) \<and>
   map_of (alerts (run [Create plain_options ''a'' 1] new_AlertSystem)) ''a''
     = Some (fst (create plain_options ''a'' 1 new_AlertSystem)) \<and>
   (let s = run [Create plain_options ''a'' 1] new_AlertSystem;
        (r, s') = resolve ''a'' ''op'' None 3 s;
        s'' = run [Create plain_options ''b'' 5] s'
    in ''a'' \<notin> live_ids s' \<and> ''a'' \<in> history_ids s' \<and> ''a'' \<notin> live_ids s'' \<and>
       acknowledge ''a'' ''op'' None 9 s'' = (None, s'') \<and>
       escalate ''a'' None 9 s'' = (None, s'') \<and>
       live_ids s'' \<inter> history_ids s'' = {})"
proof -
  have h1: "distinct (created_ids ([Create plain_options ''a'' 1] @ [Create plain_options ''b'' 5]))"
    by simp
  have h2: "map_of (alerts (run [Create plain_options ''a'' 1] new_AlertSystem)) ''a''
     = Some (fst (create plain_options ''a'' 1 new_AlertSystem))"
    by (simp add: alerts_create update_conv')
  from resolve_moves_alert_to_history [OF h1 h2, of "''op''" None 3 "''op''" None 9 None 9]
  have "let s = run [Create plain_options ''a'' 1] new_AlertSystem;
        (r, s') = resolve ''a'' ''op'' None 3 s;
        s'' = run [Create plain_options ''b'' 5] s'
    in ''a'' \<notin> live_ids s' \<and> ''a'' \<in> history_ids s' \<and> ''a'' \<notin> live_ids s'' \<and>
       acknowledge ''a'' ''op'' None 9 s'' = (None, s'') \<and>
       escalate ''a'' None 9 s'' = (None, s'') \<and>
       live_ids s'' \<inter> history_ids s'' = {}"
    unfolding Let_def by (simp only: split_beta) blast
  with h1 h2 show ?thesis by blast
qed

lemma churn_id_inj: "churn_id m = churn_id n \<Longrightarrow> m = n"
proof -
  assume "churn_id m = churn_id n"
  then have "length (churn_id m) = length (churn_id n)" by simp
  then show "m = n" by (simp add: churn_id_def)
qed

lemma created_ids_churn: "created_ids (churn k) = map churn_id [0..<k]"
  by (induction k) (simp_all add: created_ids_append)

lemma take_Cons_take: "take n (x # take n xs) = take n (x # xs)"
  by (cases n) simp_all

lemma churn_state:
  "alerts (run (churn k) new_AlertSystem) = [] \<and>
   map alert_id (history (run (churn k) new_AlertSystem))
     = take maxHistory (rev (map churn_id [0..<k]))"
proof (induction k)
  case 0
  show ?case by (simp add: new_AlertSystem_def)
next
  case (Suc k)
  define s where "s = run (churn k) new_AlertSystem"
  define s1 where "s1 = snd (create plain_options (churn_id k) k s)"
  define s2 where "s2 = snd (resolve (churn_id k) ''operator'' None k s1)"
  from Suc have e: "alerts s = []"
    and h: "map alert_id (history s) = take maxHistory (rev (map churn_id [0..<k]))"
    by (simp_all add: s_def)
  have run: "run (churn (Suc k)) new_AlertSystem = s2"
    by (simp add: run_append s_def s1_def s2_def)
  have ok1: "live_ok s1"
    unfolding s1_def s_def
    using live_ok_exec [of "run (churn k) new_AlertSystem" "Create plain_options (churn_id k) k"]
      invariants_run [of new_AlertSystem "churn k"]
    by simp
  have a1: "alerts s1 = [(churn_id k, fst (create plain_options (churn_id k) k s))]"
    by (simp add: s1_def alerts_create e)
  then have m: "map_of (alerts s1) (churn_id k) = Some (fst (create plain_options (churn_id k) k s))"
    by simp
  then obtain a where a: "history (snd (resolve (churn_id k) ''operator'' None k s1))
      = take maxHistory (a # history s1)" "alert_id a = alert_id (fst (create plain_options (churn_id k) k s))"
    by (rule history_resolve_Some)
  from live_okD [OF ok1 m] a(2) have id: "alert_id a = churn_id k" by simp
  have hs1: "history s1 = history s" by (simp add: s1_def)
  have "alerts s2 = []"
    by (simp add: s2_def alerts_resolve a1 AList.delete_eq)
  moreover have "map alert_id (history s2) = take maxHistory (rev (map churn_id [0..<Suc k]))"
  proof -
    have "map alert_id (history s2) = take maxHistory (map alert_id (a # history s))"
      unfolding s2_def a(1) hs1 by (rule take_map [symmetric])
    also have "\<dots> = take maxHistory (churn_id k # take maxHistory (rev (map churn_id [0..<k])))"
      by (simp only: list.map id h)
    also have "\<dots> = take maxHistory (churn_id k # rev (map churn_id [0..<k]))"
      by (rule take_Cons_take)
    also have "churn_id k # rev (map churn_id [0..<k]) = rev (map churn_id [0..<Suc k])"
      by simp
    finally show ?thesis .
  qed
  ultimately show ?case unfolding run by (rule conjI)
qed

lemma churn_ids:
  "live_ids (run (churn k) new_AlertSystem) = {}"
  "history_ids (run (churn k) new_AlertSystem) = set (take maxHistory (rev (map churn_id [0..<k])))"
proof -
  show "live_ids (run (churn k) new_AlertSystem) = {}"
    using churn_state [of k] by (simp add: live_ids_def)
  have "history_ids (run (churn k) new_AlertSystem)
      = set (map alert_id (history (run (churn k) new_AlertSystem)))"
    by (simp add: history_ids_def)
  then show "history_ids (run (churn k) new_AlertSystem)
      = set (take maxHistory (rev (map churn_id [0..<k])))"
    using churn_state [of k] by simp
qed

lemma churn_evicts:
  assumes k: "k = Suc maxHistory"
  shows "churn_id 0 \<in> set (created_ids (churn k)) \<and>
   churn_id 0 \<notin> live_ids (run (churn k) new_AlertSystem) \<and>
   churn_id 0 \<notin> history_ids (run (churn k) new_AlertSystem)"
proof (intro conjI)
  have "0 \<in> set [0..<k]" using k by auto
  then show "churn_id 0 \<in> set (created_ids (churn k))"
    unfolding created_ids_churn set_map by (rule imageI)
  show "churn_id 0 \<notin> live_ids (run (churn k) new_AlertSystem)"
    by (simp add: churn_ids)
  have up: "[0..<k] = 0 # [Suc 0..<k]"
    by (rule upt_conv_Cons) (simp add: k)
  have len: "length (rev (map churn_id [Suc 0..<k])) = maxHistory"
    by (simp add: k)
  have "take maxHistory (rev (map churn_id [0..<k]))
      = take maxHistory (rev (map churn_id [Suc 0..<k]) @ [churn_id 0])"
    unfolding up by simp
  also have "\<dots> = rev (map churn_id [Suc 0..<k])"
    using len by simp
  finally have "history_ids (run (churn k) new_AlertSystem) = churn_id ` {Suc 0..<k}"
    by (simp add: churn_ids)
  then show "churn_id 0 \<notin> history_ids (run (churn k) new_AlertSystem)"
    using churn_id_inj by fastforce
qed

text \<open>
  The claim as stated has every alert in the live set or in the history. The history
  keeps the \<open>maxHistory = 1000\<close> most recent resolved alerts: after 1001 alerts have
  been created and resolved one after the other, the first of them is neither in the
  live set nor in the history.
\<close>

theorem evicted_alert_counterexample:
  "churn_id 0 \<in> set (created_ids (churn 1001)) \<and>
   churn_id 0 \<notin> live_ids (run (churn 1001) new_AlertSystem) \<and>
   churn_id 0 \<notin> history_ids (run (churn 1001) new_AlertSystem)"
  by (rule churn_evicts) (simp add: maxHistory_def)

lemma acknowledged_no_timer:
  assumes "timers_ok s" and q: "\<forall>a. map_of (alerts s) i = Some a \<longrightarrow> acknowledged a"
    and p: "timeouts s h = Some t"
  shows "timer_alert t \<noteq> i"
proof
  assume "timer_alert t = i"
  moreover from assms(1) p obtain a where "map_of (alerts s) (timer_alert t) = Some a" "\<not> acknowledged a"
    unfolding timers_ok_def timers_unacknowledged_def by blast
  ultimately show False using q by simp
qed

lemma acknowledged_step:
  assumes st: "alerts_step C s s'" and i: "i \<notin> C"
    and q: "\<forall>a. map_of (alerts s) i = Some a \<longrightarrow> acknowledged a"
  shows "\<forall>a. map_of (alerts s') i = Some a \<longrightarrow> acknowledged a"
proof (intro allI impI)
  fix a'
  assume "map_of (alerts s') i = Some a'"
  with st i obtain a where "map_of (alerts s) i = Some a" "evolves a a'"
    unfolding alerts_step_def by blast
  with q show "acknowledged a'" by (simp add: evolves_def)
qed

lemma acknowledged_no_auto_escalation:
  assumes "live_ok s" "timers_ok s" "\<forall>a. map_of (alerts s) i = Some a \<longrightarrow> acknowledged a"
    "i \<notin> set (created_ids es)"
  shows "i \<notin> set (auto_escalations es s)"
  using assms
proof (induction es arbitrary: s)
  case Nil
  show ?case by simp
next
  case (Cons e es)
  have ok1: "live_ok (exec e s)" by (rule live_ok_exec [OF Cons.prems(1)])
  have t1: "timers_ok (exec e s)" by (rule timers_ok_exec [OF Cons.prems(2,1)])
  from Cons.prems(4) have i: "i \<notin> set (created_ids [e])" "i \<notin> set (created_ids es)"
    unfolding created_ids_Cons [of e es] by simp_all
  have q1: "\<forall>a. map_of (alerts (exec e s)) i = Some a \<longrightarrow> acknowledged a"
    by (rule acknowledged_step [OF step_exec i(1) Cons.prems(3)])
  have rest: "i \<notin> set (auto_escalations es (exec e s))"
    by (rule Cons.IH [OF ok1 t1 q1 i(2)])
  show ?case
  proof (cases e)
    case (TimerFires h now)
    have "timeouts s h = Some t \<Longrightarrow> timer_alert t \<noteq> i" for t
      by (rule acknowledged_no_timer [OF Cons.prems(2,3)])
    with rest show ?thesis
      by (cases "timeouts s h") (auto simp: TimerFires)
  qed (use rest in simp_all)
qed

subsection \<open>Acknowledged alerts do not escalate by themselves\<close>

text \<open>
  Claim C7. In a state that calls of the interface and timers have built from the empty
  system, with \<^verbatim>\<open>uuidv4()\<close> never returning an identifier twice, let \<open>i\<close> be the
  id of a live alert. Once \<^verbatim>\<open>acknowledge\<close> has run on \<open>i\<close>, the alert is flagged
  acknowledged, its entry in \<^verbatim>\<open>escalationTimers\<close> is gone and no timer for it is left
  to fire; and in every continuation, which may call \<^verbatim>\<open>escalate\<close> (and so try to arm a
  timer again) and may let any timer fire at any instant, no escalation timer fires for
  \<open>i\<close> and, in the state reached, none is left to fire for it.
\<close>

theorem acknowledged_never_auto_escalates:
  assumes fresh: "distinct (created_ids (es @ es'))"
    and live: "map_of (alerts (run es new_AlertSystem)) i = Some a0"
  shows "let s = run es new_AlertSystem; (r, s') = acknowledge i u nt now s; s'' = run es' s' in
     (\<exists>a. r = Some a \<and> acknowledged a \<and> map_of (alerts s') i = Some a) \<and>
     escalationTimers s' i = None \<and>
     (\<forall>h t. timeouts s' h = Some t \<longrightarrow> timer_alert t \<noteq> i) \<and>
     i \<notin> set (auto_escalations es' s') \<and>
     (\<forall>h t. timeouts s'' h = Some t \<longrightarrow> timer_alert t \<noteq> i) \<and>
     (\<forall>a. map_of (alerts s'') i = Some a \<longrightarrow> acknowledged a)"
proof -
  define s where "s = run es new_AlertSystem"
  define s' where "s' = snd (acknowledge i u nt now s)"
  define s'' where "s'' = run es' s'"
  have inv: "live_ok s" "timers_ok s"
    unfolding s_def using invariants_run [of new_AlertSystem es] by simp_all
  have s'_exec: "s' = exec (Acknowledge i u nt now) s" by (simp add: s'_def)
  have inv': "live_ok s'" "timers_ok s'"
    unfolding s'_exec by (rule live_ok_exec [OF inv(1)], rule timers_ok_exec [OF inv(2,1)])
  have inv'': "live_ok s''" "timers_ok s''"
    unfolding s''_def using invariants_run [OF inv'] by simp_all
  from live have live': "map_of (alerts s) i = Some a0" by (simp add: s_def)
  then obtain a where a:
    "acknowledge i u nt now s =
       (Some a, emit ''alert:acknowledged'' a (clearEscalation i (s\<lparr>alerts := AList.update i a (alerts s)\<rparr>)))"
    "alert_id a = alert_id a0" "priority a = priority a0" "priorityLevel a = priorityLevel a0"
    "resolved a = resolved a0" "acknowledged a"
    by (rule acknowledge_Some)
  have al: "map_of (alerts s') i = Some a"
    by (simp add: s'_def a(1) update_conv')
  have 1: "\<exists>a. fst (acknowledge i u nt now s) = Some a \<and> acknowledged a \<and> map_of (alerts s') i = Some a"
    using a(1,6) al by simp
  have 2: "escalationTimers s' i = None" by (simp add: s'_def a(1))
  have q': "\<forall>b. map_of (alerts s') i = Some b \<longrightarrow> acknowledged b"
    using al a(6) by simp
  have 3: "\<forall>h t. timeouts s' h = Some t \<longrightarrow> timer_alert t \<noteq> i"
    using acknowledged_no_timer [OF inv'(2) q'] by blast
  have "i \<in> live_ids s" using live' by (auto simp: live_ids_dom)
  with live_ids_run [of es new_AlertSystem] have "i \<in> set (created_ids es)"
    by (auto simp: s_def)
  with fresh have i: "i \<notin> set (created_ids es')" by (auto simp: created_ids_append)
  have 4: "i \<notin> set (auto_escalations es' s')"
    by (rule acknowledged_no_auto_escalation [OF inv' q' i])
  have 6: "\<forall>b. map_of (alerts s'') i = Some b \<longrightarrow> acknowledged b"
    unfolding s''_def by (rule acknowledged_step [OF step_run i q'])
  have 5: "\<forall>h t. timeouts s'' h = Some t \<longrightarrow> timer_alert t \<noteq> i"
    using acknowledged_no_timer [OF inv''(2) 6] by blast
  have split: "acknowledge i u nt now s = (fst (acknowledge i u nt now s), s')" by (simp add: s'_def)
  show ?thesis
    unfolding Let_def s_def [symmetric]
    apply (subst split)
    unfolding prod.case s''_def [symmetric]
    using 1 2 3 4 5 6 by blast
qed

theorem acknowledged_never_auto_escalates_witness:
  "distinct (created_ids ([Create plain_options ''a'' 1] @ [Escalate ''a'' None 5, TimerFires 0 2000000])) \<and>
   map_of (alerts (run [Create plain_options ''a'' 1] new_AlertSystem)) ''a''
     = Some (fst (create plain_options ''a'' 1 new_AlertSystem)) \<and>
   (let s = run [Create plain_options ''a'' 1] new_AlertSystem;
        (r, s') = acknowledge ''a'' ''op'' None 3 s;
        s'' = run [Escalate ''a'' None 5, TimerFires 0 2000000] s'
    in escalationTimers s' ''a'' = None \<and>
       ''a'' \<notin> set (auto_escalations [Escalate ''a'' None 5, TimerFires 0 2000000] s') \<and>
       (\<forall>h t. timeouts s'' h = Some t \<longrightarrow> timer_alert t \<noteq> ''a''))"
proof -
  have h1: "distinct (created_ids ([Create plain_options ''a'' 1] @ [Escalate ''a'' None 5, TimerFires 0 2000000]))"
    by simp
  have h2: "map_of (alerts (run [Create plain_options ''a'' 1] new_AlertSystem)) ''a''
     = Some (fst (create plain_options ''a'' 1 new_AlertSystem))"
    by (simp add: alerts_create update_conv')
  from acknowledged_never_auto_escalates [OF h1 h2, of "''op''" None 3]
  have "let s = run [Create plain_options ''a'' 1] new_AlertSystem;
        (r, s') = acknowledge ''a'' ''op'' None 3 s;
        s'' = run [Escalate ''a'' None 5, TimerFires 0 2000000] s'
    in escalationTimers s' ''a'' = None \<and>
       ''a'' \<notin> set (auto_escalations [Escalate ''a'' None 5, TimerFires 0 2000000] s') \<and>
       (\<forall>h t. timeouts s'' h = Some t \<longrightarrow> timer_alert t \<noteq> ''a'')"
    unfolding Let_def by (simp only: split_beta) blast
  with h1 h2 show ?thesis by blast
qed

lemma indexOf_critical: "indexOf escalation_order ''critical'' = 4"
  by (simp add: escalation_order_def)

lemma known_next:
  assumes "p \<in> set escalation_order" "p \<noteq> ''critical''"
  shows "indexOf escalation_order p < int (length escalation_order) - 1 \<and>
    (p = ''info'' \<longrightarrow> escalation_order ! nat (indexOf escalation_order p + 1) = ''low'') \<and>
    (p = ''low'' \<longrightarrow> escalation_order ! nat (indexOf escalation_order p + 1) = ''medium'') \<and>
    (p = ''medium'' \<longrightarrow> escalation_order ! nat (indexOf escalation_order p + 1) = ''high'') \<and>
    (p = ''high'' \<longrightarrow> escalation_order ! nat (indexOf escalation_order p + 1) = ''critical'')"
proof -
  from assms have "p = ''info'' \<or> p = ''low'' \<or> p = ''medium'' \<or> p = ''high''"
    by (simp add: escalation_order_def)
  then show ?thesis
    by (elim disjE) (simp_all add: escalation_order_def)
qed

subsection \<open>Escalation of an alert with a priority of the table\<close>

text \<open>
  Claim C4, as amended. In a state that calls of the interface and timers have built
  from the empty system, let \<open>i\<close> be the id of a live alert whose priority is one of
  info, low, medium, high, critical. Then \<^verbatim>\<open>escalate\<close> returns the alert; if its
  priority is critical, alert and state are unchanged; otherwise the priority is the
  next one in the order info, low, medium, high, critical, and the escalation level and
  the rank have each grown by exactly one. Through every continuation that does not
  create an alert with the id \<open>i\<close> again (calls of \<^verbatim>\<open>escalate\<close>, timers firing, any
  other call), as long as the alert is live its priority stays one of the five, neither
  its rank nor its escalation level falls, and the rank has grown by exactly as much as
  the escalation level.
\<close>

theorem escalate_known_priority:
  assumes live: "map_of (alerts (run es new_AlertSystem)) i = Some a"
    and known: "priority a \<in> set escalation_order"
    and same: "i \<notin> set (created_ids es')"
  shows "let s = run es new_AlertSystem; (r, s') = escalate i reason now s in
     (\<exists>a'. r = Some a' \<and> map_of (alerts s') i = Some a' \<and>
        (priority a = ''critical'' \<longrightarrow> a' = a \<and> s' = s) \<and>
        (priority a \<noteq> ''critical'' \<longrightarrow>
           escalationLevel a' = escalationLevel a + 1 \<and>
           priorityLevel a' = priorityLevel a + 1 \<and>
           (priority a = ''info'' \<longrightarrow> priority a' = ''low'') \<and>
           (priority a = ''low'' \<longrightarrow> priority a' = ''medium'') \<and>
           (priority a = ''medium'' \<longrightarrow> priority a' = ''high'') \<and>
           (priority a = ''high'' \<longrightarrow> priority a' = ''critical''))) \<and>
     (\<forall>b. map_of (alerts (run es' s)) i = Some b \<longrightarrow>
        priority b \<in> set escalation_order \<and>
        priorityLevel a \<le> priorityLevel b \<and>
        escalationLevel a \<le> escalationLevel b \<and>
        priorityLevel b - priorityLevel a = int (escalationLevel b) - int (escalationLevel a))"
proof -
  define s where "s = run es new_AlertSystem"
  define s' where "s' = snd (escalate i reason now s)"
  have ok: "live_ok s" unfolding s_def using invariants_run [of new_AlertSystem es] by simp
  from live have live': "map_of (alerts s) i = Some a" by (simp add: s_def)
  from live_okD [OF ok live'] have rank: "priorityLevel a = level_or_3 (priority a)" by simp
  have 1: "\<exists>a'. fst (escalate i reason now s) = Some a' \<and> map_of (alerts s') i = Some a' \<and>
        (priority a = ''critical'' \<longrightarrow> a' = a \<and> s' = s) \<and>
        (priority a \<noteq> ''critical'' \<longrightarrow>
           escalationLevel a' = escalationLevel a + 1 \<and>
           priorityLevel a' = priorityLevel a + 1 \<and>
           (priority a = ''info'' \<longrightarrow> priority a' = ''low'') \<and>
           (priority a = ''low'' \<longrightarrow> priority a' = ''medium'') \<and>
           (priority a = ''medium'' \<longrightarrow> priority a' = ''high'') \<and>
           (priority a = ''high'' \<longrightarrow> priority a' = ''critical''))"
  proof (cases "priority a = ''critical''")
    case True
    then have "\<not> indexOf escalation_order (priority a) < int (length escalation_order) - 1"
      by (simp add: indexOf_critical length_escalation_order)
    from escalate_top [OF live' this] live' True show ?thesis
      by (simp add: s'_def)
  next
    case False
    from known_next [OF known False]
    have lt: "indexOf escalation_order (priority a) < int (length escalation_order) - 1"
      and nx: "priority a = ''info'' \<longrightarrow> escalation_order ! nat (indexOf escalation_order (priority a) + 1) = ''low''"
        "priority a = ''low'' \<longrightarrow> escalation_order ! nat (indexOf escalation_order (priority a) + 1) = ''medium''"
        "priority a = ''medium'' \<longrightarrow> escalation_order ! nat (indexOf escalation_order (priority a) + 1) = ''high''"
        "priority a = ''high'' \<longrightarrow> escalation_order ! nat (indexOf escalation_order (priority a) + 1) = ''critical''"
      by simp_all
    from live' lt obtain a' where a':
      "escalate i reason now s =
       (Some a', emit ''alert'' a' (emit ''alert:escalated'' a'
          (if timeout_of (priority a') \<noteq> None
           then setupEscalation a' now (s\<lparr>alerts := AList.update i a' (alerts s)\<rparr>)
           else s\<lparr>alerts := AList.update i a' (alerts s)\<rparr>)))"
      "alert_id a' = alert_id a"
      "priority a' = escalation_order ! nat (indexOf escalation_order (priority a) + 1)"
      "priorityLevel a' = level_or_3 (priority a')"
      "resolved a' = resolved a" "acknowledged a' = acknowledged a"
      "escalationLevel a' = escalationLevel a + 1" "createdAt a' = createdAt a"
      by (rule escalate_Some)
    have "map_of (alerts s') i = Some a'"
      unfolding s'_def alerts_escalate_Some [OF a'(1)] by (simp add: update_conv')
    moreover have "priorityLevel a' = priorityLevel a + 1"
      using next_in_order [OF known lt] a'(3,4) rank by simp
    ultimately show ?thesis
      using False a'(1,3,7) nx by simp
  qed
  have 2: "\<forall>b. map_of (alerts (run es' s)) i = Some b \<longrightarrow>
        priority b \<in> set escalation_order \<and>
        priorityLevel a \<le> priorityLevel b \<and>
        escalationLevel a \<le> escalationLevel b \<and>
        priorityLevel b - priorityLevel a = int (escalationLevel b) - int (escalationLevel a)"
  proof (intro allI impI)
    fix b
    assume "map_of (alerts (run es' s)) i = Some b"
    with step_run [of es' s] same obtain a0 where "map_of (alerts s) i = Some a0" "evolves a0 b"
      unfolding alerts_step_def by blast
    with live' have ev: "evolves a b" by simp
    with known rank have "priority b \<in> set escalation_order" "escalationLevel a \<le> escalationLevel b"
      "priorityLevel b - priorityLevel a = int (escalationLevel b) - int (escalationLevel a)"
      by (simp_all add: evolves_def)
    then show "priority b \<in> set escalation_order \<and>
        priorityLevel a \<le> priorityLevel b \<and>
        escalationLevel a \<le> escalationLevel b \<and>
        priorityLevel b - priorityLevel a = int (escalationLevel b) - int (escalationLevel a)"
      by simp
  qed
  have split: "escalate i reason now s = (fst (escalate i reason now s), s')" by (simp add: s'_def)
  show ?thesis
    unfolding Let_def s_def [symmetric]
    apply (subst split)
    unfolding prod.case
    using 1 2 by blast
qed

theorem escalate_known_priority_witness:
  "map_of (alerts (run [Create (plain_options\<lparr>opt_priority := Some ''high''\<rparr>) ''a'' 2] new_AlertSystem)) ''a''
     = Some (fst (create (plain_options\<lparr>opt_priority := Some ''high''\<rparr>) ''a'' 2 new_AlertSystem)) \<and>
   priority (fst (create (plain_options\<lparr>opt_priority := Some ''high''\<rparr>) ''a'' 2 new_AlertSystem))
     \<in> set escalation_order \<and>
   ''a'' \<notin> set (created_ids [Escalate ''a'' None 5, TimerFires 0 2000000]) \<and>
   (let s = run [Create (plain_options\<lparr>opt_priority := Some ''high''\<rparr>) ''a'' 2] new_AlertSystem;
        (r, s') = escalate ''a'' None 7 s
    in \<exists>a'. r = Some a' \<and> priority a' = ''critical'' \<and> escalationLevel a' = 1 \<and> priorityLevel a' = 5)"
proof -
  let ?o = "plain_options\<lparr>opt_priority := Some ''high''\<rparr>"
  have h1: "map_of (alerts (run [Create ?o ''a'' 2] new_AlertSystem)) ''a''
     = Some (fst (create ?o ''a'' 2 new_AlertSystem))"
    by (simp add: alerts_create update_conv')
  have p: "priority (fst (create ?o ''a'' 2 new_AlertSystem)) = ''high''"
    "priorityLevel (fst (create ?o ''a'' 2 new_AlertSystem)) = 4"
    "escalationLevel (fst (create ?o ''a'' 2 new_AlertSystem)) = 0"
    by (simp_all add: create_def Let_def or_default_def level_or_3_def priorities_def)
  have h2: "priority (fst (create ?o ''a'' 2 new_AlertSystem)) \<in> set escalation_order"
    by (simp add: p escalation_order_def)
  have h3: "''a'' \<notin> set (created_ids [Escalate ''a'' None 5, TimerFires 0 2000000])"
    by simp
  from escalate_known_priority [OF h1 h2 h3, of None 7]
  have "let s = run [Create ?o ''a'' 2] new_AlertSystem;
        (r, s') = escalate ''a'' None 7 s
    in \<exists>a'. r = Some a' \<and> priority a' = ''critical'' \<and> escalationLevel a' = 1 \<and> priorityLevel a' = 5"
    unfolding Let_def by (simp only: split_beta p) auto
  with h1 h2 h3 show ?thesis by blast
qed

text \<open>
  The claim as stated, for every active alert, fails for an alert created with a
  priority outside the table: \<^verbatim>\<open>create\<close> gives the priority urgent the rank 3, and
  \<^verbatim>\<open>escalate\<close> then sets the priority to info and the rank to 1.
\<close>

theorem escalate_unknown_priority_counterexample:
  "map_of (alerts (snd (create urgent_options ''a1'' 10 new_AlertSystem))) ''a1''
     = Some (fst (create urgent_options ''a1'' 10 new_AlertSystem)) \<and>
   priority (fst (create urgent_options ''a1'' 10 new_AlertSystem)) = ''urgent'' \<and>
   priorityLevel (fst (create urgent_options ''a1'' 10 new_AlertSystem)) = 3 \<and>
   map_option priority (fst (escalate ''a1'' None 20 (snd (create urgent_options ''a1'' 10 new_AlertSystem))))
     = Some ''info'' \<and>
   map_option priorityLevel (fst (escalate ''a1'' None 20 (snd (create urgent_options ''a1'' 10 new_AlertSystem))))
     = Some 1"
  by (simp add: create_def escalate_def Let_def or_default_def level_or_3_def timeout_of_def
      urgent_options_def update_conv' add_note_def priorities_def escalation_order_def
      new_AlertSystem_def)

section \<open>Properties of the standing order matcher\<close>

subsection \<open>Escalation on threshold terms\<close>

lemma toLowerCase_char_not_O: "toLowerCase_char c \<noteq> CHR ''O''"
  by (simp add: toLowerCase_char_def)

lemma toLowerCase_no_O: "CHR ''O'' \<notin> set (toLowerCase s)"
  using toLowerCase_char_not_O by (fastforce simp: toLowerCase_def)

lemma startsWith_OR: "startsWith s '' OR '' \<Longrightarrow> CHR ''O'' \<in> set s"
proof (cases s)
  case Nil
  assume "startsWith s '' OR ''"
  with Nil show ?thesis by simp
next
  case (Cons c s')
  assume "startsWith s '' OR ''"
  with Cons show ?thesis by (cases s') simp_all
qed

lemma split_go_no_separator:
  "CHR ''O'' \<notin> set s \<Longrightarrow> split_go '' OR '' 0 acc s = [rev acc @ s]"
proof (induction s arbitrary: acc)
  case Nil
  show ?case by simp
next
  case (Cons c s)
  from Cons.prems have "\<not> startsWith (c # s) '' OR ''"
    using startsWith_OR [of "c # s"] by blast
  with Cons show ?case by simp
qed

lemma split_toLowerCase: "split '' OR '' (toLowerCase s) = [toLowerCase s]"
  using split_go_no_separator [OF toLowerCase_no_O, of "[]" s] by (simp add: split_def)

lemma requiresEscalation_whole_threshold:
  "requiresEscalation ord responses = (case escalation ord of
      None \<Rightarrow> False
    | Some esc \<Rightarrow>
        always_notify esc \<or>
        (truthy (threshold esc) \<and>
         includesStr (toLowerCase (join '' '' (map response responses)))
           (trim (toLowerCase (or_default [] (threshold esc))))))"
  by (auto simp: requiresEscalation_def split_toLowerCase Let_def split: option.splits)

text \<open>
  Claim C1 says that \<^verbatim>\<open>requiresEscalation\<close> is true when one of the terms of the
  threshold expression, separated by OR, occurs in the lower-cased text of the
  responses. The code lower-cases the threshold before it splits it at the upper-case
  separator, so the split never finds a separator (\<open>split_toLowerCase\<close>) and the whole
  expression is searched for as one term (\<open>requiresEscalation_whole_threshold\<close>). For
  the order with threshold hostile OR weapon and a response that contains the word
  hostile, the terms are hostile and weapon, the first occurs in the response text, and
  the code returns false.
\<close>

theorem requiresEscalation_ignores_or_terms:
  "requiresEscalation perimeter_order hostile_response = False \<and>
   split '' OR '' ''hostile OR weapon'' = [''hostile'', ''weapon''] \<and>
   includesStr (toLowerCase (join '' '' (map response hostile_response))) ''hostile''"
  by (simp add: requiresEscalation_whole_threshold perimeter_order_def hostile_response_def
      truthy_def toLowerCase_def toLowerCase_char_def split_def or_default_def trim_def
      is_whitespace_def)

lemma checkTrigger_loop_no_match:
  "\<forall>(k, v) \<in> set os. \<exists>ord. v = Some ord \<and> trigger ord \<noteq> Some name \<Longrightarrow>
     checkTrigger_loop os name ctx now s = (Inr False, s)"
  by (induction os) auto

lemma checkTrigger_loop_first_match:
  assumes "\<forall>(k', v') \<in> set pre. \<exists>ord'. v' = Some ord' \<and> trigger ord' \<noteq> Some name"
    "trigger ord = Some name"
  shows "checkTrigger_loop (pre @ (k, Some ord) # post) name ctx now s =
     (Inr True, (log_activity k ''triggered'' ctx now s)
              \<lparr>fired := fired (log_activity k ''triggered'' ctx now s) @ [(k, ord, ctx)]\<rparr>)"
  using assms by (induction pre) (auto simp: Let_def)

lemma checkTrigger_loop_null:
  assumes "\<forall>(k', v') \<in> set pre. \<exists>ord'. v' = Some ord' \<and> trigger ord' \<noteq> Some name"
  shows "checkTrigger_loop (pre @ (k, None) # post) name ctx now s = (Inl TypeError, s)"
  using assms by (induction pre) auto

lemma log_activity_fields [simp]:
  "orders (log_activity k act d now s) = orders s"
  "fired (log_activity k act d now s) = fired s"
  by (simp_all add: log_activity_def Let_def)

lemma logs_log_activity:
  "logs (log_activity k act d now s) =
     (let l = logs s @ [\<lparr>log_orderId = k, log_action = act, log_details = d, log_timestamp = now\<rparr>]
      in drop (length l - 1000) l)"
  by (simp add: log_activity_def Let_def)

lemma set_Object_entries: "set (Object_entries obj) = set obj"
  by (auto simp: Object_entries_def)

lemma Object_entries_names:
  "list_all (\<lambda>(k, v). \<not> isArrayIndex k) obj \<Longrightarrow> Object_entries obj = obj"
proof -
  assume a: "list_all (\<lambda>(k, v). \<not> isArrayIndex k) obj"
  then have "filter (\<lambda>(k, v). isArrayIndex k) obj = []"
    by (auto simp: list_all_iff filter_empty_conv)
  moreover from a have "filter (\<lambda>(k, v). \<not> isArrayIndex k) obj = obj"
    by (auto simp: list_all_iff filter_id_conv)
  ultimately show ?thesis by (simp add: Object_entries_def)
qed

lemma Object_entries_order:
  "\<exists>ixs. Object_entries obj = ixs @ filter (\<lambda>(k, v). \<not> isArrayIndex k) obj \<and>
     mset ixs = mset (filter (\<lambda>(k, v). isArrayIndex k) obj) \<and>
     sorted (map (\<lambda>(k, v). numeric_value k) ixs)"
  unfolding Object_entries_def by (intro exI conjI) (rule refl, simp_all)

lemma isArrayIndex_7: "isArrayIndex ''7''"
  by (simp add: isArrayIndex_def digit_value_def numeric_value_def)

lemma not_isArrayIndex_letter:
  "digit_value c = None \<Longrightarrow> \<not> isArrayIndex (c # cs)"
  by (simp add: isArrayIndex_def)

subsection \<open>The first matching order fires\<close>

text \<open>
  Claim C8, as amended. \<^verbatim>\<open>checkTrigger\<close> goes through the orders as \<^verbatim>\<open>Object.entries\<close>
  enumerates them: the orders whose id is an array index first, by ascending number,
  then the other orders in the order of the configuration; when no id is an array index
  this is the order of the configuration. When no order is null and none has the
  trigger \<open>name\<close>, the call returns false and changes nothing: no log entry, no event.
  Otherwise the enumeration has a first order that is null or has the trigger \<open>name\<close>.
  If it has the trigger, the call returns true, appends one \<^verbatim>\<open>triggered\<close> entry for it
  to the log (which keeps its last 1000 entries) and emits exactly one event, carrying
  that order's id, the order and the context. If it is null, the call throws a
  \<^verbatim>\<open>TypeError\<close> and changes nothing.
\<close>

theorem checkTrigger_first_match:
  "((\<forall>(k, v) \<in> set (orders s). \<exists>ord. v = Some ord \<and> trigger ord \<noteq> Some name) \<longrightarrow>
      checkTrigger name ctx now s = (Inr False, s)) \<and>
   ((\<exists>(k, v) \<in> set (orders s). v = None \<or> map_option trigger v = Some (Some name)) \<longrightarrow>
      (\<exists>pre k v post.
         Object_entries (orders s) = pre @ (k, v) # post \<and>
         (\<forall>(k', v') \<in> set pre. \<exists>ord'. v' = Some ord' \<and> trigger ord' \<noteq> Some name) \<and>
         ((\<exists>ord s'. v = Some ord \<and> trigger ord = Some name \<and>
             checkTrigger name ctx now s = (Inr True, s') \<and>
             fired s' = fired s @ [(k, ord, ctx)] \<and>
             logs s' = (let l = logs s @ [\<lparr>log_orderId = k, log_action = ''triggered'',
                                            log_details = ctx, log_timestamp = now\<rparr>]
                        in drop (length l - 1000) l) \<and>
             orders s' = orders s) \<or>
          v = None \<and> checkTrigger name ctx now s = (Inl TypeError, s)))) \<and>
   (\<exists>ixs. Object_entries (orders s) = ixs @ filter (\<lambda>(k, v). \<not> isArrayIndex k) (orders s) \<and>
      mset ixs = mset (filter (\<lambda>(k, v). isArrayIndex k) (orders s)) \<and>
      sorted (map (\<lambda>(k, v). numeric_value k) ixs)) \<and>
   (list_all (\<lambda>(k, v). \<not> isArrayIndex k) (orders s) \<longrightarrow> Object_entries (orders s) = orders s)"
proof (intro conjI impI)
  assume "\<forall>(k, v) \<in> set (orders s). \<exists>ord. v = Some ord \<and> trigger ord \<noteq> Some name"
  then have "\<forall>(k, v) \<in> set (Object_entries (orders s)). \<exists>ord. v = Some ord \<and> trigger ord \<noteq> Some name"
    by (simp only: set_Object_entries)
  then show "checkTrigger name ctx now s = (Inr False, s)"
    unfolding checkTrigger_def by (rule checkTrigger_loop_no_match)
next
  let ?stops = "\<lambda>x. snd x = None \<or> map_option trigger (snd x) = Some (Some name)"
  assume "\<exists>(k, v) \<in> set (orders s). v = None \<or> map_option trigger v = Some (Some name)"
  then have "\<exists>x \<in> set (Object_entries (orders s)). ?stops x"
    unfolding set_Object_entries by force
  from split_list_first_prop [OF this]
  obtain pre x post where x: "Object_entries (orders s) = pre @ x # post" "?stops x"
    "\<forall>y \<in> set pre. \<not> ?stops y"
    by blast
  obtain k v where kx: "x = (k, v)" by (cases x)
  have pre: "\<forall>(k', v') \<in> set pre. \<exists>ord'. v' = Some ord' \<and> trigger ord' \<noteq> Some name"
  proof (clarify)
    fix k' v'
    assume "(k', v') \<in> set pre"
    with x(3) have "\<not> ?stops (k', v')" by blast
    then show "\<exists>ord'. v' = Some ord' \<and> trigger ord' \<noteq> Some name" by (cases v') auto
  qed
  show "\<exists>pre k v post.
         Object_entries (orders s) = pre @ (k, v) # post \<and>
         (\<forall>(k', v') \<in> set pre. \<exists>ord'. v' = Some ord' \<and> trigger ord' \<noteq> Some name) \<and>
         ((\<exists>ord s'. v = Some ord \<and> trigger ord = Some name \<and>
             checkTrigger name ctx now s = (Inr True, s') \<and>
             fired s' = fired s @ [(k, ord, ctx)] \<and>
             logs s' = (let l = logs s @ [\<lparr>log_orderId = k, log_action = ''triggered'',
                                            log_details = ctx, log_timestamp = now\<rparr>]
                        in drop (length l - 1000) l) \<and>
             orders s' = orders s) \<or>
          v = None \<and> checkTrigger name ctx now s = (Inl TypeError, s))"
  proof (cases v)
    case None
    have "checkTrigger name ctx now s = (Inl TypeError, s)"
      unfolding checkTrigger_def x(1) kx None by (rule checkTrigger_loop_null [OF pre])
    with x(1) kx None pre show ?thesis by blast
  next
    case (Some ord)
    with x(2) kx have t: "trigger ord = Some name" by simp
    define s' where "s' = (log_activity k ''triggered'' ctx now s)
              \<lparr>fired := fired (log_activity k ''triggered'' ctx now s) @ [(k, ord, ctx)]\<rparr>"
    have "checkTrigger name ctx now s = (Inr True, s')"
      unfolding checkTrigger_def x(1) kx Some s'_def by (rule checkTrigger_loop_first_match [OF pre t])
    moreover have "fired s' = fired s @ [(k, ord, ctx)]" "orders s' = orders s"
      by (simp_all add: s'_def)
    moreover have "logs s' = (let l = logs s @ [\<lparr>log_orderId = k, log_action = ''triggered'',
                                        log_details = ctx, log_timestamp = now\<rparr>]
                    in drop (length l - 1000) l)"
      by (simp add: s'_def logs_log_activity)
    ultimately show ?thesis using x(1) kx Some pre t by blast
  qed
next
  show "\<exists>ixs. Object_entries (orders s) = ixs @ filter (\<lambda>(k, v). \<not> isArrayIndex k) (orders s) \<and>
      mset ixs = mset (filter (\<lambda>(k, v). isArrayIndex k) (orders s)) \<and>
      sorted (map (\<lambda>(k, v). numeric_value k) ixs)"
    by (rule Object_entries_order)
next
  assume "list_all (\<lambda>(k, v). \<not> isArrayIndex k) (orders s)"
  then show "Object_entries (orders s) = orders s" by (rule Object_entries_names)
qed

theorem checkTrigger_first_match_witness:
  "(\<exists>(k, v) \<in> set (orders two_orders). v = None \<or> map_option trigger v = Some (Some ''perimeter_breach'')) \<and>
   \<not> (\<exists>(k, v) \<in> set (orders two_orders). v = None \<or> map_option trigger v = Some (Some ''flood'')) \<and>
   list_all (\<lambda>(k, v). \<not> isArrayIndex k) (orders two_orders) \<and>
   Object_entries (orders two_orders) = orders two_orders \<and>
   checkTrigger ''flood'' ''ctx'' 7 two_orders = (Inr False, two_orders) \<and>
   fst (checkTrigger ''perimeter_breach'' ''ctx'' 7 two_orders) = Inr True \<and>
   fired (snd (checkTrigger ''perimeter_breach'' ''ctx'' 7 two_orders))
     = [(''perimeter_response'', perimeter_order, ''ctx'')]"
proof -
  have h1: "\<exists>(k, v) \<in> set (orders two_orders). v = None \<or> map_option trigger v = Some (Some ''perimeter_breach'')"
    by (simp add: two_orders_def perimeter_order_def)
  have h2: "\<forall>(k, v) \<in> set (orders two_orders). \<exists>ord. v = Some ord \<and> trigger ord \<noteq> Some ''flood''"
    by (simp add: two_orders_def perimeter_order_def lockdown_order_def)
  have h3: "list_all (\<lambda>(k, v). \<not> isArrayIndex k) (orders two_orders)"
    by (simp add: two_orders_def not_isArrayIndex_letter digit_value_def)
  from checkTrigger_first_match [of two_orders "''flood''" "''ctx''" 7] h2
  have 1: "checkTrigger ''flood'' ''ctx'' 7 two_orders = (Inr False, two_orders)" by blast
  from checkTrigger_first_match [of two_orders "''perimeter_breach''" "''ctx''" 7] h3
  have 2: "Object_entries (orders two_orders) = orders two_orders" by blast
  have 3: "fst (checkTrigger ''perimeter_breach'' ''ctx'' 7 two_orders) = Inr True"
    "fired (snd (checkTrigger ''perimeter_breach'' ''ctx'' 7 two_orders))
     = [(''perimeter_response'', perimeter_order, ''ctx'')]"
    unfolding checkTrigger_def 2 by (simp_all add: two_orders_def perimeter_order_def Let_def)
  from h2 have 4: "\<not> (\<exists>(k, v) \<in> set (orders two_orders). v = None \<or> map_option trigger v = Some (Some ''flood''))"
    by (simp add: two_orders_def perimeter_order_def lockdown_order_def)
  from h1 4 h3 2 1 3 show ?thesis by (intro conjI)
qed

text \<open>
  The claim as stated takes the first matching order in the order of the configuration,
  for every configuration. In a configuration that lists the order \<^verbatim>\<open>gate_watch\<close> and
  then the order \<^verbatim>\<open>7\<close>, both on the same trigger, the second is enumerated first and is
  the one that fires. In a configuration whose only order is null no order has the
  trigger \<^verbatim>\<open>flood\<close>, and the call throws instead of returning false.
\<close>

theorem checkTrigger_configuration_order_counterexample:
  "orders numbered_orders = [(''gate_watch'', Some perimeter_order), (''7'', Some lockdown_order)] \<and>
   trigger perimeter_order = Some ''perimeter_breach'' \<and>
   fst (checkTrigger ''perimeter_breach'' ''ctx'' 7 numbered_orders) = Inr True \<and>
   fired (snd (checkTrigger ''perimeter_breach'' ''ctx'' 7 numbered_orders))
     = [(''7'', lockdown_order, ''ctx'')] \<and>
   orders draft_orders = [(''draft'', None)] \<and>
   checkTrigger ''flood'' ''ctx'' 7 draft_orders = (Inl TypeError, draft_orders)"
  by (simp add: checkTrigger_def Object_entries_def numbered_orders_def draft_orders_def
      isArrayIndex_7 not_isArrayIndex_letter digit_value_def perimeter_order_def lockdown_order_def
      Let_def)

section \<open>Properties of the sensor registry and trigger detector\<close>

subsection \<open>What the detector and one ingestion do\<close>

lemma push_if_names [simp]:
  "map trigger_name (push_if c name dp d) = (if c then [name] else [])"
  by (simp add: push_if_def)

lemma push_if_data: "t \<in> set (push_if c name dp d) \<Longrightarrow> trigger_data t = dp"
  by (simp add: push_if_def split: if_splits)

lemma detectTriggers_data: "t \<in> set (detectTriggers sn dp s) \<Longrightarrow> trigger_data t = dp"
  by (auto simp: detectTriggers_def Let_def dest: push_if_data split: if_splits)

lemma detectTriggers_names:
  "map trigger_name (detectTriggers sn dp s)
     = filter (detector_condition s sn (data_fields dp)) (rules_of (sensor_type sn))"
proof -
  consider "sensor_type sn = ''camera''" | "sensor_type sn = ''drone''"
    | "sensor_type sn = ''gps_tracker''" | "sensor_type sn = ''motion_sensor''"
    | "sensor_type sn = ''environmental''" | "sensor_type sn = ''access_control''"
    | "sensor_type sn = ''radio''"
    | "sensor_type sn \<notin> {''camera'', ''drone'', ''gps_tracker'', ''motion_sensor'',
         ''environmental'', ''access_control'', ''radio''}"
    by blast
  then show ?thesis
  proof cases
    case 1
    then show ?thesis
      by (simp add: detectTriggers_def rules_of_def detector_condition_def Let_def)
  next
    case 2
    then show ?thesis
      by (simp add: detectTriggers_def rules_of_def detector_condition_def position_breach_def Let_def)
  next
    case 3
    then show ?thesis
      by (simp add: detectTriggers_def rules_of_def detector_condition_def position_breach_def Let_def)
  next
    case 4
    then show ?thesis
      by (simp add: detectTriggers_def rules_of_def detector_condition_def Let_def)
  next
    case 5
    then show ?thesis
      by (simp add: detectTriggers_def rules_of_def detector_condition_def Let_def)
  next
    case 6
    then show ?thesis
      by (simp add: detectTriggers_def rules_of_def detector_condition_def Let_def)
  next
    case 7
    then show ?thesis
      by (simp add: detectTriggers_def rules_of_def detector_condition_def Let_def)
  next
    case 8
    then show ?thesis
      by (simp add: detectTriggers_def rules_of_def detector_condition_def Let_def)
  qed
qed

lemma distinct_rules_of: "distinct (rules_of ty)"
  by (simp add: rules_of_def)

lemma checkGeofenceBreach_missing:
  "\<not> truthy gid \<or> geofences s (or_default [] gid) = None \<Longrightarrow> checkGeofenceBreach pos gid s = False"
  by (auto simp: checkGeofenceBreach_def)

lemma position_breach_missing:
  "\<not> truthy (geofence_ref (config sn)) \<or> geofences s (or_default [] (geofence_ref (config sn))) = None
     \<Longrightarrow> \<not> position_breach s sn d"
  by (simp add: position_breach_def checkGeofenceBreach_missing split: option.splits)

lemma condition_geofence_breach:
  "detector_condition s sn d ''geofence_breach'' \<Longrightarrow> position_breach s sn d"
  by (auto simp: detector_condition_def Let_def)

lemma emit_trigger_fields [simp]:
  "geofences (emit_trigger key sn dp t s) = geofences s"
  "watchlist_faces (emit_trigger key sn dp t s) = watchlist_faces s"
  "dataBuffer (emit_trigger key sn dp t s) = dataBuffer s"
  "sensor_events (emit_trigger key sn dp t s) = sensor_events s @ [SensorTrigger (trigger_event_of sn dp t)]"
  by (simp_all add: emit_trigger_def)

lemma emit_trigger_other: "k \<noteq> key \<Longrightarrow> sensors (emit_trigger key sn dp t s) k = sensors s k"
  by (simp add: emit_trigger_def split: option.splits)

lemma emit_trigger_sensor:
  "sensors s key = Some cur \<Longrightarrow>
   \<exists>cur'. sensors (emit_trigger key sn dp t s) key = Some cur' \<and>
     lastSeen cur' = lastSeen cur \<and> sensor_name cur' = sensor_name cur \<and>
     sensor_type cur' = sensor_type cur \<and> sensor_zone cur' = sensor_zone cur \<and>
     config cur' = config cur \<and> sensor_id cur' = sensor_id cur \<and>
     triggerCount (stats cur') = triggerCount (stats cur) + 1"
  by (simp add: emit_trigger_def)

lemma fold_emit_trigger_fields [simp]:
  "geofences (fold (emit_trigger key sn dp) ts s) = geofences s"
  "watchlist_faces (fold (emit_trigger key sn dp) ts s) = watchlist_faces s"
  "dataBuffer (fold (emit_trigger key sn dp) ts s) = dataBuffer s"
  "sensor_events (fold (emit_trigger key sn dp) ts s)
     = sensor_events s @ map (\<lambda>t. SensorTrigger (trigger_event_of sn dp t)) ts"
  by (induction ts arbitrary: s) simp_all

lemma fold_emit_trigger_other:
  "k \<noteq> key \<Longrightarrow> sensors (fold (emit_trigger key sn dp) ts s) k = sensors s k"
  by (induction ts arbitrary: s) (simp_all add: emit_trigger_other)

lemma fold_emit_trigger_sensor:
  "sensors s key = Some cur \<Longrightarrow>
   \<exists>cur'. sensors (fold (emit_trigger key sn dp) ts s) key = Some cur' \<and>
     lastSeen cur' = lastSeen cur \<and> sensor_name cur' = sensor_name cur \<and>
     sensor_type cur' = sensor_type cur \<and> sensor_zone cur' = sensor_zone cur \<and>
     config cur' = config cur \<and> sensor_id cur' = sensor_id cur \<and>
     triggerCount (stats cur') = triggerCount (stats cur) + length ts"
proof (induction ts arbitrary: s cur)
  case Nil
  then show ?case by simp
next
  case (Cons t ts)
  from emit_trigger_sensor [OF Cons.prems, of sn dp t]
  obtain c1 where c1: "sensors (emit_trigger key sn dp t s) key = Some c1"
    "lastSeen c1 = lastSeen cur" "sensor_name c1 = sensor_name cur"
    "sensor_type c1 = sensor_type cur" "sensor_zone c1 = sensor_zone cur"
    "config c1 = config cur" "sensor_id c1 = sensor_id cur"
    "triggerCount (stats c1) = triggerCount (stats cur) + 1"
    by blast
  from Cons.IH [OF c1(1)] c1(2-) show ?case by auto
qed

lemma checkGeofenceBreach_cong:
  "geofences s' = geofences s \<Longrightarrow> checkGeofenceBreach pos g s' = checkGeofenceBreach pos g s"
  by (simp add: checkGeofenceBreach_def)

lemma face_matches_cong:
  "watchlist_faces s' = watchlist_faces s \<Longrightarrow> face_matches s' d = face_matches s d"
  by (simp add: face_matches_def split: option.splits)

lemma detectTriggers_cong:
  assumes "geofences s' = geofences s" "watchlist_faces s' = watchlist_faces s"
    "sensor_type sn' = sensor_type sn" "config sn' = config sn"
  shows "detectTriggers sn' dp s' = detectTriggers sn dp s"
  unfolding detectTriggers_def assms(3,4)
    checkGeofenceBreach_cong [OF assms(1)] face_matches_cong [OF assms(2)] ..

lemma detector_condition_cong:
  assumes "geofences s' = geofences s" "watchlist_faces s' = watchlist_faces s"
    "sensor_type sn' = sensor_type sn" "config sn' = config sn"
  shows "detector_condition s' sn' (d\<lparr>timestamp := ts, zone := z\<rparr>) name = detector_condition s sn d name"
  unfolding detector_condition_def position_breach_def assms(3,4)
    checkGeofenceBreach_cong [OF assms(1)] face_matches_cong [OF assms(2)]
  by simp


lemma ingest_registered:
  fixes d :: reading and now :: string
  assumes sn: "sensors s sid = Some sn" and buf: "dataBuffer s sid = Some buf"
  defines "dp \<equiv> dataPoint_of sn sid d now"
  obtains s' sn' ts where
    "ingest sid d now s = (Inr dp, s')"
    "map trigger_name ts = filter (detector_condition s sn d) (rules_of (sensor_type sn))"
    "\<forall>t \<in> set ts. trigger_data t = dp"
    "sensor_events s' = sensor_events s @ [SensorData dp, SensorDataOfType (sensor_type sn) dp]
        @ map (\<lambda>t. SensorTrigger
            \<lparr>triggered_by = t, event_sensorId = sensor_id sn, event_sensorName = sensor_name sn,
             event_sensorType = sensor_type sn, event_zone = sensor_zone sn,
             event_timestamp = Some (stamp d now)\<rparr>) ts"
    "dataBuffer s' = (dataBuffer s)(sid \<mapsto>
        (if length (buf @ [dp]) > bufferSize then tl (buf @ [dp]) else buf @ [dp]))"
    "sensors s' sid = Some sn'" "lastSeen sn' = stamp d now"
    "sensor_name sn' = sensor_name sn" "sensor_type sn' = sensor_type sn"
    "sensor_zone sn' = sensor_zone sn" "config sn' = config sn" "sensor_id sn' = sensor_id sn"
    "triggerCount (stats sn') = triggerCount (stats sn) + length ts"
    "\<forall>k. k \<noteq> sid \<longrightarrow> sensors s' k = sensors s k"
    "geofences s' = geofences s" "watchlist_faces s' = watchlist_faces s"
proof -
  define sn1 where "sn1 = sn\<lparr>lastSeen := stamp d now, lastData := Some dp, status := ''online'',
                      stats := (stats sn)\<lparr>dataCount := dataCount (stats sn) + 1\<rparr>\<rparr>"
  define b2 where "b2 = (if length (buf @ [dp]) > bufferSize then tl (buf @ [dp]) else buf @ [dp])"
  define s3 where "s3 = s\<lparr>sensors := (sensors s)(sid \<mapsto> sn1), dataBuffer := (dataBuffer s)(sid \<mapsto> b2),
       sensor_events := sensor_events s @ [SensorData dp, SensorDataOfType (sensor_type sn) dp]\<rparr>"
  define ts where "ts = detectTriggers sn1 dp s3"
  define s' where "s' = fold (emit_trigger sid sn1 dp) ts s3"
  have ing: "ingest sid d now s = (Inr dp, s')"
    by (simp add: ingest_def sn buf Let_def processTriggers_def dp_def sn1_def b2_def s3_def ts_def s'_def)
  have ts_eq: "ts = detectTriggers sn dp s"
    unfolding ts_def by (rule detectTriggers_cong) (simp_all add: s3_def sn1_def)
  have names: "map trigger_name ts = filter (detector_condition s sn d) (rules_of (sensor_type sn))"
  proof -
    have "detector_condition s sn (data_fields dp) = detector_condition s sn d"
      unfolding dp_def dataPoint_of_def by (rule ext) (simp add: detector_condition_cong)
    then show ?thesis by (simp add: ts_eq detectTriggers_names)
  qed
  have data: "\<forall>t \<in> set ts. trigger_data t = dp"
    by (auto simp: ts_eq dest: detectTriggers_data)
  have ev: "trigger_event_of sn1 dp t =
      \<lparr>triggered_by = t, event_sensorId = sensor_id sn, event_sensorName = sensor_name sn,
       event_sensorType = sensor_type sn, event_zone = sensor_zone sn,
       event_timestamp = Some (stamp d now)\<rparr>" for t
    by (simp add: trigger_event_of_def sn1_def dp_def dataPoint_of_def)
  have events: "sensor_events s' = sensor_events s @ [SensorData dp, SensorDataOfType (sensor_type sn) dp]
        @ map (\<lambda>t. SensorTrigger
            \<lparr>triggered_by = t, event_sensorId = sensor_id sn, event_sensorName = sensor_name sn,
             event_sensorType = sensor_type sn, event_zone = sensor_zone sn,
             event_timestamp = Some (stamp d now)\<rparr>) ts"
    by (simp add: s'_def ev) (simp add: s3_def)
  have buffer: "dataBuffer s' = (dataBuffer s)(sid \<mapsto>
        (if length (buf @ [dp]) > bufferSize then tl (buf @ [dp]) else buf @ [dp]))"
    by (simp add: s'_def s3_def b2_def)
  have "sensors s3 sid = Some sn1" by (simp add: s3_def)
  from fold_emit_trigger_sensor [OF this, of sn1 dp ts]
  obtain sn' where sn': "sensors s' sid = Some sn'" "lastSeen sn' = lastSeen sn1"
    "sensor_name sn' = sensor_name sn1" "sensor_type sn' = sensor_type sn1"
    "sensor_zone sn' = sensor_zone sn1" "config sn' = config sn1" "sensor_id sn' = sensor_id sn1"
    "triggerCount (stats sn') = triggerCount (stats sn1) + length ts"
    unfolding s'_def by blast
  have others: "\<forall>k. k \<noteq> sid \<longrightarrow> sensors s' k = sensors s k"
    by (simp add: s'_def fold_emit_trigger_other) (simp add: s3_def)
  have fixed: "geofences s' = geofences s" "watchlist_faces s' = watchlist_faces s"
    by (simp_all add: s'_def s3_def)
  show thesis
    by (rule that [OF ing names data events buffer sn'(1)])
       (use sn'(2-) others fixed in \<open>simp_all add: sn1_def\<close>)
qed

lemma tracker_registered:
  "sensors tracker_system ''tracker-7'' =
     Some tracker_sensor"
  "dataBuffer tracker_system ''tracker-7'' = Some []"
  "geofences tracker_system = Map.empty"
  by (simp_all add: tracker_system_def tracker_sensor_def register_def tracker_options_def
      or_default_def Let_def sensorTypes_def new_SensorSystem_def)

subsection \<open>A threshold configured as zero\<close>

lemma vault_registered:
  "sensors vault_system ''env-1'' = Some vault_sensor"
  "dataBuffer vault_system ''env-1'' = Some []"
  "sensor_events vault_system = [SensorRegistered vault_sensor]"
  by (simp_all add: vault_system_def vault_sensor_def register_def vault_options_def
      or_default_def Let_def sensorTypes_def new_SensorSystem_def)

lemma trigger_events_append: "trigger_events (xs @ ys) = trigger_events xs @ trigger_events ys"
  by (induction xs rule: trigger_events.induct) simp_all

lemma trigger_events_map: "trigger_events (map SensorTrigger ts) = ts"
  by (induction ts) simp_all

lemma zero_gas_threshold_ignored:
  assumes "sensors s sid = Some sn" "dataBuffer s sid = Some buf"
    and "sensor_type sn = ''environmental''" "gasThreshold (config sn) = Some 0"
    and "gas d = Number g" "0 < g" "g \<le> 100"
  shows "rule_satisfied s sn d ''gas_leak''"
    and "''gas_leak'' \<notin> set (map (trigger_name \<circ> triggered_by)
           (trigger_events (drop (length (sensor_events s)) (sensor_events (snd (ingest sid d now s))))))"
proof -
  show "rule_satisfied s sn d ''gas_leak''"
    using assms(3-6) by (simp add: rule_satisfied_def field_above_def configured_def)
  let ?dp = "dataPoint_of sn sid d now"
  let ?ev = "\<lambda>t. \<lparr>triggered_by = t, event_sensorId = sensor_id sn, event_sensorName = sensor_name sn,
             event_sensorType = sensor_type sn, event_zone = sensor_zone sn,
             event_timestamp = Some (stamp d now)\<rparr>"
  obtain s' ts where i: "ingest sid d now s = (Inr ?dp, s')"
    "map trigger_name ts = filter (detector_condition s sn d) (rules_of (sensor_type sn))"
    "sensor_events s' = sensor_events s @ [SensorData ?dp, SensorDataOfType (sensor_type sn) ?dp]
        @ map (\<lambda>t. SensorTrigger (?ev t)) ts"
    by (rule ingest_registered [OF assms(1,2), of d now])
  have "\<not> detector_condition s sn d ''gas_leak''"
    using assms(3-7) by (simp add: detector_condition_def gt_number_def or_number_def)
  then have n: "''gas_leak'' \<notin> set (map trigger_name ts)"
    unfolding i(2) by simp
  have "trigger_events (drop (length (sensor_events s)) (sensor_events s')) = map ?ev ts"
    unfolding i(3) using trigger_events_map [of "map ?ev ts"] by (simp add: comp_def)
  then have "map (trigger_name \<circ> triggered_by)
      (trigger_events (drop (length (sensor_events s)) (sensor_events s'))) = map trigger_name ts"
    by (simp add: comp_def)
  with n show "''gas_leak'' \<notin> set (map (trigger_name \<circ> triggered_by)
           (trigger_events (drop (length (sensor_events s)) (sensor_events (snd (ingest sid d now s))))))"
    unfolding i(1) snd_conv by simp
qed

text \<open>
  Claim C5 says that one call of \<^verbatim>\<open>ingest\<close> emits exactly one trigger event for every
  rule of the table that the reading satisfies. The detector reads a threshold as
  \<^verbatim>\<open>sensor.config.gasThreshold || 100\<close>, which is the default also for a threshold that
  is configured as zero. For the environmental sensor configured with the gas threshold
  0 and the reading with smoke 60 and gas 1, two rules of the table are satisfied,
  \<^verbatim>\<open>smoke_detected\<close> (60 is above the default 50) and \<^verbatim>\<open>gas_leak\<close> (1 is above the
  configured 0), and \<^verbatim>\<open>ingest\<close> emits one trigger event, \<^verbatim>\<open>smoke_detected\<close>. The same
  holds for every registered environmental sensor with the gas threshold 0 and every
  reading with gas above 0 and up to 100 (\<open>zero_gas_threshold_ignored\<close>).
\<close>

theorem ingest_ignores_zero_threshold:
  "sensors vault_system ''env-1'' = Some vault_sensor \<and>
   gasThreshold (config vault_sensor) = Some 0 \<and>
   smoke leak_reading = Number 60 \<and> gas leak_reading = Number 1 \<and>
   rule_satisfied vault_system vault_sensor leak_reading ''smoke_detected'' \<and>
   rule_satisfied vault_system vault_sensor leak_reading ''gas_leak'' \<and>
   map (trigger_name \<circ> triggered_by)
     (trigger_events (sensor_events (snd (ingest ''env-1'' leak_reading ''2024-05-01T11:05:01.000Z'' vault_system))))
     = [''smoke_detected'']"
proof -
  let ?dp = "dataPoint_of vault_sensor ''env-1'' leak_reading ''2024-05-01T11:05:01.000Z''"
  let ?ev = "\<lambda>t. \<lparr>triggered_by = t, event_sensorId = sensor_id vault_sensor, event_sensorName = sensor_name vault_sensor,
             event_sensorType = sensor_type vault_sensor, event_zone = sensor_zone vault_sensor,
             event_timestamp = Some (stamp leak_reading ''2024-05-01T11:05:01.000Z'')\<rparr>"
  obtain s' ts where i: "ingest ''env-1'' leak_reading ''2024-05-01T11:05:01.000Z'' vault_system = (Inr ?dp, s')"
    "map trigger_name ts = filter (detector_condition vault_system vault_sensor leak_reading) (rules_of (sensor_type vault_sensor))"
    "sensor_events s' = sensor_events vault_system @ [SensorData ?dp, SensorDataOfType (sensor_type vault_sensor) ?dp]
        @ map (\<lambda>t. SensorTrigger (?ev t)) ts"
    by (rule ingest_registered [OF vault_registered(1,2), of leak_reading "''2024-05-01T11:05:01.000Z''"])
  have f: "filter (detector_condition vault_system vault_sensor leak_reading) (rules_of (sensor_type vault_sensor))
      = [''smoke_detected'']"
    by (simp add: rules_of_def detector_condition_def leak_reading_def quiet_reading_def
        lt_number_def gt_number_def or_number_def vault_sensor_def vault_options_def)
  have "trigger_events (sensor_events s') = map ?ev ts"
    unfolding i(3) vault_registered(3) trigger_events_append
    using trigger_events_map [of "map ?ev ts"] by (simp add: comp_def)
  then have "map (trigger_name \<circ> triggered_by) (trigger_events (sensor_events s')) = map trigger_name ts"
    by (simp add: comp_def)
  then have 1: "map (trigger_name \<circ> triggered_by)
     (trigger_events (sensor_events (snd (ingest ''env-1'' leak_reading ''2024-05-01T11:05:01.000Z'' vault_system))))
     = [''smoke_detected'']"
    by (simp add: i(1,2) f)
  have 2: "rule_satisfied vault_system vault_sensor leak_reading ''smoke_detected''"
    "rule_satisfied vault_system vault_sensor leak_reading ''gas_leak''"
    by (simp_all add: rule_satisfied_def leak_reading_def quiet_reading_def field_above_def
        configured_def vault_sensor_def vault_options_def)
  have 3: "gasThreshold (config vault_sensor) = Some 0" "smoke leak_reading = Number 60"
    "gas leak_reading = Number 1"
    by (simp_all add: vault_sensor_def vault_options_def leak_reading_def)
  from vault_registered(1) 3 2 1 show ?thesis by (intro conjI)
qed








subsection \<open>The buffer of a sensor\<close>



lemma no_breach_condition:
  assumes "\<not> truthy (geofence_ref (config sn)) \<or>
      geofences s (or_default [] (geofence_ref (config sn))) = None"
  shows "''geofence_breach'' \<notin> set (filter (detector_condition s sn r) (rules_of (sensor_type sn)))"
proof
  assume "''geofence_breach'' \<in> set (filter (detector_condition s sn r) (rules_of (sensor_type sn)))"
  then have "detector_condition s sn r ''geofence_breach''" by simp
  then have "position_breach s sn r" by (rule condition_geofence_breach)
  with position_breach_missing [OF assms] show False by blast
qed

lemma processTriggers_fst: "fst (processTriggers key sn dp s) = detectTriggers sn dp s"
  by (simp add: processTriggers_def Let_def)

lemma processTriggers_events:
  "sensor_events (snd (processTriggers key sn dp s))
     = sensor_events s @ map (\<lambda>t. SensorTrigger (trigger_event_of sn dp t)) (detectTriggers sn dp s)"
  by (simp add: processTriggers_def Let_def)

subsection \<open>A geofence that is missing\<close>

text \<open>
  Claim C9. When the geofence reference is absent or empty, or no geofence is
  registered under it, \<^verbatim>\<open>checkGeofenceBreach\<close> returns false for every position; and
  for a sensor configured with such a reference, \<^verbatim>\<open>processTriggers\<close> produces no
  trigger named geofence breach, nor does \<^verbatim>\<open>ingest\<close> emit a trigger event of that
  name, whatever the reading.
\<close>

theorem missing_geofence_no_breach:
  assumes "\<not> truthy gid \<or> geofences s (or_default [] gid) = None"
  shows "checkGeofenceBreach pos gid s = False \<and>
     (geofence_ref (config sn) = gid \<longrightarrow>
        ''geofence_breach'' \<notin> set (map trigger_name (fst (processTriggers key sn dp s))) \<and>
        sensor_events (snd (processTriggers key sn dp s))
          = sensor_events s @ map (\<lambda>t. SensorTrigger (trigger_event_of sn dp t))
                                 (fst (processTriggers key sn dp s)) \<and>
        (sensors s sid = Some sn \<and> dataBuffer s sid = Some buf \<longrightarrow>
           (\<forall>e. SensorTrigger e \<in> set (drop (length (sensor_events s))
                                        (sensor_events (snd (ingest sid d now s)))) \<longrightarrow>
                trigger_name (triggered_by e) \<noteq> ''geofence_breach'')))"
proof (intro conjI impI)
  show "checkGeofenceBreach pos gid s = False"
    by (rule checkGeofenceBreach_missing [OF assms])
next
  assume g: "geofence_ref (config sn) = gid"
  have m: "\<not> truthy (geofence_ref (config sn)) \<or>
      geofences s (or_default [] (geofence_ref (config sn))) = None"
    unfolding g by (rule assms)
  show "''geofence_breach'' \<notin> set (map trigger_name (fst (processTriggers key sn dp s)))"
    unfolding processTriggers_fst detectTriggers_names by (rule no_breach_condition [OF m])
  show "sensor_events (snd (processTriggers key sn dp s))
          = sensor_events s @ map (\<lambda>t. SensorTrigger (trigger_event_of sn dp t))
                                 (fst (processTriggers key sn dp s))"
    unfolding processTriggers_fst by (rule processTriggers_events)
  assume reg: "sensors s sid = Some sn \<and> dataBuffer s sid = Some buf"
  then have r1: "sensors s sid = Some sn" and r2: "dataBuffer s sid = Some buf" by simp_all
  let ?dp = "dataPoint_of sn sid d now"
  let ?ev = "\<lambda>t. SensorTrigger
            \<lparr>triggered_by = t, event_sensorId = sensor_id sn, event_sensorName = sensor_name sn,
             event_sensorType = sensor_type sn, event_zone = sensor_zone sn,
             event_timestamp = Some (stamp d now)\<rparr>"
  obtain s' ts where i: "ingest sid d now s = (Inr ?dp, s')"
    "map trigger_name ts = filter (detector_condition s sn d) (rules_of (sensor_type sn))"
    "sensor_events s' = sensor_events s @ [SensorData ?dp, SensorDataOfType (sensor_type sn) ?dp]
        @ map ?ev ts"
    by (rule ingest_registered [OF r1 r2, of d now])
  have n: "''geofence_breach'' \<notin> set (map trigger_name ts)"
    unfolding i(2) by (rule no_breach_condition [OF m])
  have new: "drop (length (sensor_events s)) (sensor_events (snd (ingest sid d now s)))
      = [SensorData ?dp, SensorDataOfType (sensor_type sn) ?dp] @ map ?ev ts"
    by (simp add: i(1,3))
  show "\<forall>e. SensorTrigger e \<in> set (drop (length (sensor_events s))
                                        (sensor_events (snd (ingest sid d now s)))) \<longrightarrow>
                trigger_name (triggered_by e) \<noteq> ''geofence_breach''"
  proof (intro allI impI)
    fix e
    assume "SensorTrigger e \<in> set (drop (length (sensor_events s))
                                        (sensor_events (snd (ingest sid d now s))))"
    then have "SensorTrigger e \<in> set (map ?ev ts)"
      unfolding new by simp
    then obtain t where t: "t \<in> set ts" "triggered_by e = t" by auto
    show "trigger_name (triggered_by e) \<noteq> ''geofence_breach''"
    proof
      assume "trigger_name (triggered_by e) = ''geofence_breach''"
      with t have "''geofence_breach'' = trigger_name t" by simp
      with t(1) have "''geofence_breach'' \<in> set (map trigger_name ts)" by simp
      with n show False by (rule notE)
    qed
  qed
qed

theorem missing_geofence_no_breach_witness:
  "geofences tracker_system (or_default [] (Some ''perimeter'')) = None \<and>
   geofence_ref (config tracker_sensor) = Some ''perimeter'' \<and>
   checkGeofenceBreach \<lparr>lat = 9, lng = 7\<rparr> (Some ''perimeter'') tracker_system = False \<and>
   ''geofence_breach'' \<notin> set (map trigger_name (fst (processTriggers ''tracker-7'' tracker_sensor
        (dataPoint_of tracker_sensor ''tracker-7'' distress_reading ''2024-05-01T10:05:01.000Z'')
        tracker_system)))"
proof -
  have h: "\<not> truthy (Some ''perimeter'') \<or>
      geofences tracker_system (or_default [] (Some ''perimeter'')) = None"
    by (simp add: tracker_registered(3))
  have g: "geofence_ref (config tracker_sensor) = Some ''perimeter''"
    by (simp add: tracker_sensor_def tracker_options_def)
  from missing_geofence_no_breach [OF h, of "\<lparr>lat = 9, lng = 7\<rparr>" tracker_sensor "''tracker-7''"
      "dataPoint_of tracker_sensor ''tracker-7'' distress_reading ''2024-05-01T10:05:01.000Z''"] g
  have "checkGeofenceBreach \<lparr>lat = 9, lng = 7\<rparr> (Some ''perimeter'') tracker_system = False \<and>
   ''geofence_breach'' \<notin> set (map trigger_name (fst (processTriggers ''tracker-7'' tracker_sensor
        (dataPoint_of tracker_sensor ''tracker-7'' distress_reading ''2024-05-01T10:05:01.000Z'')
        tracker_system)))"
    by blast
  moreover have "geofences tracker_system (or_default [] (Some ''perimeter'')) = None"
    by (simp add: tracker_registered(3))
  ultimately show ?thesis using g by blast
qed

end
